theory Spec2Isabelle
  imports
    Main
    "HOL-Library.Finite_Map"
    "HOL-Library.Char_ord"
    "HOL-Library.List_Lexorder"
    "HOL-Library.Sublist"
    "HOL-Library.Multiset"
begin

section \<open>Data model of package core\<close>

text \<open>
  A Go \<^verbatim>\<open>error\<close> is modelled by its message; \<^verbatim>\<open>nil\<close> is \<open>None\<close>.
  \<^verbatim>\<open>fmt.Errorf("initializing %s: %w", name, err)\<close> is the concatenation of the
  format's pieces with the message of the wrapped error.
\<close>

type_synonym error = string

text \<open>
  \<^verbatim>\<open>context.Context\<close>: the values the repository builds are
  \<^verbatim>\<open>context.Background()\<close> and \<^verbatim>\<open>context.WithTimeout(parent, d)\<close>.
\<close>

datatype "context" = Background | WithTimeout "context" nat

text \<open>
  Component code (\<^verbatim>\<open>Init\<close>, \<^verbatim>\<open>Shutdown\<close>, hooks, \<^verbatim>\<open>HealthCheck\<close>) is opaque to
  the registry. It is modelled as a function on an environment \<open>'w\<close> (everything outside
  the registry that such code reads or writes) returning its result and the new
  environment: a call returns, and it does not touch the registry. The registry's mutex
  is held across these calls, so component code that calls back into the registry would
  block; such code has no model here. \<^verbatim>\<open>Name()\<close> and \<^verbatim>\<open>Dependencies()\<close> are taken to
  return the same value at every call.
\<close>

record 'w Initializer =
  Name :: string
  Dependencies :: "string list"
  Init :: "'w \<Rightarrow> error option \<times> 'w"

type_synonym 'w Shutdowner = "context \<Rightarrow> 'w \<Rightarrow> error option \<times> 'w"

text \<open>
  A registered value has the static type \<^verbatim>\<open>interface{}\<close>; the two fields are the
  outcomes of the type assertions \<^verbatim>\<open>component.(Initializer)\<close> and
  \<^verbatim>\<open>comp.(Shutdowner)\<close>.
\<close>

record 'w component =
  asInitializer :: "'w Initializer option"
  asShutdowner :: "'w Shutdowner option"

text \<open>
  \<^verbatim>\<open>type Registry struct\<close> without its mutex. \<^verbatim>\<open>initialized map[string]bool\<close> is
  only ever written with \<^verbatim>\<open>true\<close> and a missing key reads \<^verbatim>\<open>false\<close>, so it is
  the set of its keys.
\<close>

record 'w Registry =
  components :: "(string, 'w component) fmap"
  initialized :: "string set"
  initOrder :: "string list"
  shutdownHooks :: "'w Shutdowner list"

definition registry :: "'w Registry" where
  "registry = \<lparr>components = fmempty, initialized = {}, initOrder = [], shutdownHooks = []\<rparr>"

text \<open>
  Every call the registry makes into component code is recorded, with what it returned,
  beside the environment.
\<close>

datatype event =
    InitCall string "error option"
  | ShutdownCall string "context" "error option"
  | HookCall nat "context" "error option"

record 'w World =
  env :: 'w
  calls :: "event list"

section \<open>Register and RegisterShutdownHook\<close>

definition Register :: "'w component \<Rightarrow> 'w Registry \<Rightarrow> 'w Registry" where
  "Register component r =
     (case asInitializer component of
        Some init \<Rightarrow> r\<lparr>components := fmupd (Name init) component (components r)\<rparr>
      | None \<Rightarrow> r)"

definition RegisterShutdownHook :: "'w Shutdowner \<Rightarrow> 'w Registry \<Rightarrow> 'w Registry" where
  "RegisterShutdownHook hook r = r\<lparr>shutdownHooks := shutdownHooks r @ [hook]\<rparr>"

section \<open>topologicalSort\<close>

text \<open>
  The three locals that the closure \<^verbatim>\<open>visit\<close> captures and mutates. The two
  \<^verbatim>\<open>map[string]bool\<close> are the sets of the names they map to \<^verbatim>\<open>true\<close>:
  \<^verbatim>\<open>visiting[name] = false\<close> takes the name out.
\<close>

record visit_state =
  order :: "string list"
  visited :: "string set"
  visiting :: "string set"

text \<open>
  The dependencies that \<^verbatim>\<open>visit\<close> ranges over for a name: those of the registered
  component when it passes the \<^verbatim>\<open>Initializer\<close> assertion, none otherwise.
\<close>

definition deps_of :: "(string, 'w component) fmap \<Rightarrow> string \<Rightarrow> string list" where
  "deps_of cs name =
     (case fmlookup cs name of
        Some c \<Rightarrow> (case asInitializer c of Some init \<Rightarrow> Dependencies init | None \<Rightarrow> [])
      | None \<Rightarrow> [])"

definition circular :: "string \<Rightarrow> error" where
  "circular name = ''circular dependency detected involving '' @ name"

text \<open>The names whose marks are still clear: what \<^verbatim>\<open>visit\<close> can still descend into.\<close>

definition unmarked :: "(string, 'w component) fmap \<Rightarrow> visit_state \<Rightarrow> string set" where
  "unmarked cs s = fmdom' cs - (visited s \<union> visiting s)"

function visit :: "(string, 'w component) fmap \<Rightarrow> string \<Rightarrow> visit_state \<Rightarrow> error + visit_state"
  and visit_deps :: "(string, 'w component) fmap \<Rightarrow> string list \<Rightarrow> visit_state \<Rightarrow> error + visit_state"
where
  "visit cs name s =
     (if name \<in> visiting s then Inl (circular name)
      else if name \<in> visited s then Inr s
      else
        (case
           (case fmlookup cs name of
              Some c \<Rightarrow>
                (case asInitializer c of
                   Some init \<Rightarrow>
                     visit_deps cs (Dependencies init) (s\<lparr>visiting := insert name (visiting s)\<rparr>)
                 | None \<Rightarrow> Inr (s\<lparr>visiting := insert name (visiting s)\<rparr>))
            | None \<Rightarrow> Inr (s\<lparr>visiting := insert name (visiting s)\<rparr>))
         of
           Inl err \<Rightarrow> Inl err
         | Inr s' \<Rightarrow>
             Inr (s'\<lparr>visiting := visiting s' - {name},
                     visited := insert name (visited s'),
                     order := order s' @ [name]\<rparr>)))"
| "visit_deps cs [] s = Inr s"
| "visit_deps cs (dep # deps) s =
     (case visit cs dep s of
        Inl err \<Rightarrow> Inl err
      | Inr s' \<Rightarrow> visit_deps cs deps s')"
  by pat_completeness auto

text \<open>
  Termination: a call that goes past both checks marks a registered name that was
  unmarked, and marks are never cleared back to unmarked.
\<close>

lemma visit_marks_dom:
  "visit_visit_deps_dom (Inl (cs, name, s)) \<Longrightarrow> visit cs name s = Inr s' \<Longrightarrow>
     visiting s' = visiting s \<and> visited s \<subseteq> visited s'"
  "visit_visit_deps_dom (Inr (cs, ds, s)) \<Longrightarrow> visit_deps cs ds s = Inr s' \<Longrightarrow>
     visiting s' = visiting s \<and> visited s \<subseteq> visited s'"
proof (induction cs name s and cs ds s arbitrary: s' and s' rule: visit_visit_deps.pinduct)
  case (1 cs name s)
  let ?s1 = "s\<lparr>visiting := insert name (visiting s)\<rparr>"
  show ?case
  proof (cases "name \<in> visiting s \<or> name \<in> visited s")
    case True
    with 1(1,3) show ?thesis by (auto simp: visit.psimps split: if_splits)
  next
    case False
    then have nv: "name \<notin> visiting s" "name \<notin> visited s" by simp_all
    show ?thesis
    proof (cases "fmlookup cs name")
      case None
      with 1(1,3) nv show ?thesis by (auto simp: visit.psimps)
    next
      case (Some c)
      show ?thesis
      proof (cases "asInitializer c")
        case None
        with 1(1,3) nv Some show ?thesis by (auto simp: visit.psimps)
      next
        case (Some init)
        with 1(1,3) nv \<open>fmlookup cs name = Some c\<close> obtain s2 where
          s2: "visit_deps cs (Dependencies init) ?s1 = Inr s2"
          and s': "s' = s2\<lparr>visiting := visiting s2 - {name}, visited := insert name (visited s2),
                     order := order s2 @ [name]\<rparr>"
          by (auto simp: visit.psimps split: sum.splits)
        from 1(2)[OF nv \<open>fmlookup cs name = Some c\<close> Some s2]
        have "visiting s2 = insert name (visiting s)" "visited s \<subseteq> visited s2" by simp_all
        with s' nv show ?thesis by auto
      qed
    qed
  qed
next
  case (2 cs s)
  then show ?case by (simp add: visit_deps.psimps)
next
  case (3 cs dep deps s)
  from 3(1,4) obtain s1 where s1: "visit cs dep s = Inr s1" and s': "visit_deps cs deps s1 = Inr s'"
    by (auto simp: visit_deps.psimps split: sum.splits)
  from 3(2)[OF s1] 3(3)[OF s1 s'] show ?case by auto
qed


lemma unmarked_mono:
  "visiting s' = visiting s \<Longrightarrow> visited s \<subseteq> visited s' \<Longrightarrow>
   card (unmarked cs s') \<le> card (unmarked cs s)"
  by (rule card_mono) (auto simp: unmarked_def)

lemma unmarked_less:
  assumes "fmlookup cs name = Some c" "name \<notin> visiting s" "name \<notin> visited s"
  shows "card (unmarked cs (s\<lparr>visiting := insert name (visiting s)\<rparr>)) < card (unmarked cs s)"
proof (rule psubset_card_mono)
  show "finite (unmarked cs s)" by (simp add: unmarked_def)
  from assms(1) have "name \<in> fmdom' cs" by (rule fmdom'I)
  with assms(2,3) show "unmarked cs (s\<lparr>visiting := insert name (visiting s)\<rparr>) \<subset> unmarked cs s"
    by (auto simp: unmarked_def)
qed

termination visit
proof (relation
    "(\<lambda>x. case x of Inl (cs, name, s) \<Rightarrow> card (unmarked cs s)
                     | Inr (cs, ds, s) \<Rightarrow> card (unmarked cs s))
     <*mlex*> measure (\<lambda>x. case x of Inl _ \<Rightarrow> 0 | Inr (cs, ds, s) \<Rightarrow> Suc (length ds))",
    goal_cases)
  case 1
  show ?case by (simp add: wf_mlex)
next
  case (2 cs name s c init)
  then show ?case by (auto intro!: mlex_less unmarked_less)
next
  case (3 cs dep deps s)
  then show ?case by (auto intro!: mlex_leq)
next
  case (4 cs dep deps s s')
  then show ?case using visit_marks_dom(1)[of cs dep s s']
    by (auto intro!: mlex_leq unmarked_mono)
qed

declare visit.simps [simp del]

text \<open>The loop \<^verbatim>\<open>for _, name := range names\<close> at the end of \<^verbatim>\<open>topologicalSort\<close>.\<close>

fun visit_all :: "(string, 'w component) fmap \<Rightarrow> string list \<Rightarrow> visit_state \<Rightarrow> error + visit_state" where
  "visit_all cs [] s = Inr s"
| "visit_all cs (name # names) s =
     (case visit cs name s of
        Inl err \<Rightarrow> Inl err
      | Inr s' \<Rightarrow> visit_all cs names s')"

text \<open>
  \<^verbatim>\<open>names\<close> collects the keys of \<^verbatim>\<open>r.components\<close> and \<^verbatim>\<open>sort.Strings\<close> orders
  them bytewise, which is the lexicographic order on \<open>char list\<close>; whatever order the
  map is ranged in, the sorted slice is the sorted list of the key set.
\<close>

definition topologicalSort :: "'w Registry \<Rightarrow> error + string list" where
  "topologicalSort r =
     (let names = sorted_list_of_fset (fmdom (components r)) in
      case visit_all (components r) names \<lparr>order = [], visited = {}, visiting = {}\<rparr> of
        Inl err \<Rightarrow> Inl err
      | Inr s \<Rightarrow> Inr (order s))"

section \<open>initOne, Initialize\<close>

definition unknown_component :: "string \<Rightarrow> error" where
  "unknown_component name = ''unknown component: '' @ name"

definition not_Initializer :: "string \<Rightarrow> error" where
  "not_Initializer name = name @ '' does not implement Initializer''"

definition initializing :: "string \<Rightarrow> error \<Rightarrow> error" where
  "initializing name err = ''initializing '' @ name @ '': '' @ err"

definition shutting_down :: "string \<Rightarrow> error \<Rightarrow> error" where
  "shutting_down name err = ''shutting down '' @ name @ '': '' @ err"

text \<open>
  \<^verbatim>\<open>initOne\<close> calls itself on every dependency that is not yet initialized and has
  no mark against cycles, so on its own it need not return. The first argument bounds the
  depth of its recursion: \<open>None\<close> is a call that did not return within the bound.
  A returned result is the \<^verbatim>\<open>error\<close> (\<open>None\<close> for \<^verbatim>\<open>nil\<close>) with the registry
  and the world as the call left them. \<open>initDeps\<close> is the loop over
  \<^verbatim>\<open>init.Dependencies()\<close>.
\<close>

fun initOne :: "nat \<Rightarrow> string \<Rightarrow> 'w Registry \<Rightarrow> 'w World \<Rightarrow>
                  (error option \<times> 'w Registry \<times> 'w World) option"
  and initDeps :: "nat \<Rightarrow> string list \<Rightarrow> 'w Registry \<Rightarrow> 'w World \<Rightarrow>
                  (error option \<times> 'w Registry \<times> 'w World) option"
where
  "initOne 0 name r w = None"
| "initOne (Suc fuel) name r w =
     (if name \<in> initialized r then Some (None, r, w)
      else
        (case fmlookup (components r) name of
           None \<Rightarrow> Some (Some (unknown_component name), r, w)
         | Some c \<Rightarrow>
             (case asInitializer c of
                None \<Rightarrow> Some (Some (not_Initializer name), r, w)
              | Some init \<Rightarrow>
                  (case initDeps fuel (Dependencies init) r w of
                     None \<Rightarrow> None
                   | Some (Some err, r', w') \<Rightarrow> Some (Some err, r', w')
                   | Some (None, r', w') \<Rightarrow>
                       (case Init init (env w') of
                          (Some err, e') \<Rightarrow>
                            Some (Some err, r',
                                  w'\<lparr>env := e', calls := calls w' @ [InitCall name (Some err)]\<rparr>)
                        | (None, e') \<Rightarrow>
                            Some (None, r'\<lparr>initialized := insert name (initialized r')\<rparr>,
                                  w'\<lparr>env := e', calls := calls w' @ [InitCall name None]\<rparr>))))))"
| "initDeps fuel [] r w = Some (None, r, w)"
| "initDeps fuel (dep # deps) r w =
     (if dep \<notin> initialized r then
        (case initOne fuel dep r w of
           None \<Rightarrow> None
         | Some (Some err, r', w') \<Rightarrow> Some (Some err, r', w')
         | Some (None, r', w') \<Rightarrow> initDeps fuel deps r' w')
      else initDeps fuel deps r w)"

text \<open>The loop \<^verbatim>\<open>for _, name := range order\<close> of \<^verbatim>\<open>Initialize\<close>.\<close>

fun initAll :: "nat \<Rightarrow> string list \<Rightarrow> 'w Registry \<Rightarrow> 'w World \<Rightarrow>
                  (error option \<times> 'w Registry \<times> 'w World) option" where
  "initAll fuel [] r w = Some (None, r, w)"
| "initAll fuel (name # names) r w =
     (case initOne fuel name r w of
        None \<Rightarrow> None
      | Some (Some err, r', w') \<Rightarrow> Some (Some (initializing name err), r', w')
      | Some (None, r', w') \<Rightarrow> initAll fuel names r' w')"

definition Initialize :: "nat \<Rightarrow> 'w Registry \<Rightarrow> 'w World \<Rightarrow>
                  (error option \<times> 'w Registry \<times> 'w World) option" where
  "Initialize fuel r w =
     (case topologicalSort r of
        Inl err \<Rightarrow> Some (Some err, r, w)
      | Inr ord \<Rightarrow> initAll fuel ord (r\<lparr>initOrder := ord\<rparr>) w)"

section \<open>Shutdown\<close>

text \<open>
  The loop \<^verbatim>\<open>for i := len(registry.initOrder) - 1; i >= 0; i--\<close>. The counter of the
  model is \<^verbatim>\<open>i + 1\<close>, so that \<open>0\<close> is the exit of the loop; it starts at
  \<^verbatim>\<open>len(registry.initOrder)\<close> and every index read is in range.
\<close>

fun shutdownLoop :: "'w Registry \<Rightarrow> context \<Rightarrow> nat \<Rightarrow> 'w World \<Rightarrow> error option \<times> 'w World" where
  "shutdownLoop r ctx 0 w = (None, w)"
| "shutdownLoop r ctx (Suc i) w =
     (let name = initOrder r ! i in
      case fmlookup (components r) name of
        Some c \<Rightarrow>
          (case asShutdowner c of
             Some s \<Rightarrow>
               (case s ctx (env w) of
                  (Some err, e') \<Rightarrow>
                    (Some (shutting_down name err),
                     w\<lparr>env := e', calls := calls w @ [ShutdownCall name ctx (Some err)]\<rparr>)
                | (None, e') \<Rightarrow>
                    shutdownLoop r ctx i
                      (w\<lparr>env := e', calls := calls w @ [ShutdownCall name ctx None]\<rparr>))
           | None \<Rightarrow> shutdownLoop r ctx i w)
      | None \<Rightarrow> shutdownLoop r ctx i w)"

text \<open>
  The loop \<^verbatim>\<open>for _, hook := range registry.shutdownHooks\<close>; hooks have no name, the
  recorded call carries the hook's index in the slice.
\<close>

fun runHooks :: "context \<Rightarrow> nat \<Rightarrow> 'w Shutdowner list \<Rightarrow> 'w World \<Rightarrow> error option \<times> 'w World" where
  "runHooks ctx k [] w = (None, w)"
| "runHooks ctx k (hook # hooks) w =
     (case hook ctx (env w) of
        (Some err, e') \<Rightarrow>
          (Some err, w\<lparr>env := e', calls := calls w @ [HookCall k ctx (Some err)]\<rparr>)
      | (None, e') \<Rightarrow>
          runHooks ctx (Suc k) hooks (w\<lparr>env := e', calls := calls w @ [HookCall k ctx None]\<rparr>))"

definition Shutdown :: "'w Registry \<Rightarrow> context \<Rightarrow> 'w World \<Rightarrow> error option \<times> 'w World" where
  "Shutdown r ctx w =
     (case shutdownLoop r ctx (length (initOrder r)) w of
        (Some err, w') \<Rightarrow> (Some err, w')
      | (None, w') \<Rightarrow> runHooks ctx 0 (shutdownHooks r) w')"

definition GracefulShutdown :: "'w Registry \<Rightarrow> nat \<Rightarrow> 'w World \<Rightarrow> error option \<times> 'w World" where
  "GracefulShutdown r timeout w = Shutdown r (WithTimeout Background timeout) w"

section \<open>Health registry\<close>

datatype HealthStatus = HealthUnknown | HealthHealthy | HealthDegraded | HealthUnhealthy

type_synonym 'w HealthChecker = "context \<Rightarrow> 'w \<Rightarrow> (HealthStatus \<times> error option) \<times> 'w"

text \<open>\<^verbatim>\<open>time.Time\<close> is a reading of the clock, a natural number.\<close>

record HealthResult =
  Status :: HealthStatus
  Error :: "error option"
  Time :: nat

record 'w HealthRegistry =
  checkers :: "(string, 'w HealthChecker) fmap"

definition healthRegistry :: "'w HealthRegistry" where
  "healthRegistry = \<lparr>checkers = fmempty\<rparr>"

definition RegisterHealthCheck :: "string \<Rightarrow> 'w HealthChecker \<Rightarrow> 'w HealthRegistry \<Rightarrow> 'w HealthRegistry" where
  "RegisterHealthCheck name checker hr = hr\<lparr>checkers := fmupd name checker (checkers hr)\<rparr>"

text \<open>
  \<^verbatim>\<open>CheckHealth\<close> ranges over the map \<^verbatim>\<open>healthRegistry.checkers\<close>. Go does not fix the
  order of that iteration: \<open>keys\<close> is the order of one call, an enumeration of the keys
  of the map. \<^verbatim>\<open>time.Now()\<close> reads the clock of the environment; the clock is not part
  of the repository and is the parameter \<open>now\<close>. \<^verbatim>\<open>CheckHealth\<close> reads nothing of the
  lifecycle registry.
\<close>

fun rangeCheckers :: "('w \<Rightarrow> nat) \<Rightarrow> 'w HealthRegistry \<Rightarrow> context \<Rightarrow> string list \<Rightarrow>
                        (string, HealthResult) fmap \<Rightarrow> 'w \<Rightarrow> (string, HealthResult) fmap \<times> 'w" where
  "rangeCheckers now hr ctx [] results e = (results, e)"
| "rangeCheckers now hr ctx (name # names) results e =
     (case fmlookup (checkers hr) name of
        None \<Rightarrow> rangeCheckers now hr ctx names results e
      | Some checker \<Rightarrow>
          (case checker ctx e of
             ((status, err), e') \<Rightarrow>
               rangeCheckers now hr ctx names
                 (fmupd name \<lparr>Status = status, Error = err, Time = now e'\<rparr> results) e'))"

definition CheckHealth :: "('w \<Rightarrow> nat) \<Rightarrow> 'w HealthRegistry \<Rightarrow> string list \<Rightarrow> context \<Rightarrow> 'w \<Rightarrow>
                             (string, HealthResult) fmap \<times> 'w" where
  "CheckHealth now hr keys ctx e = rangeCheckers now hr ctx keys fmempty e"

text \<open>No health check moves the clock backwards.\<close>

definition clock_advances :: "('w \<Rightarrow> nat) \<Rightarrow> 'w HealthRegistry \<Rightarrow> context \<Rightarrow> bool" where
  "clock_advances now hr ctx = fmpred (\<lambda>name c. \<forall>e. now e \<le> now (snd (c ctx e))) (checkers hr)"

section \<open>Depth-first traversal: what \<^verbatim>\<open>visit\<close> guarantees\<close>

text \<open>
  The dependency relation that the traversal follows: an edge from a registered name to
  each name in its \<^verbatim>\<open>Dependencies()\<close>.
\<close>

definition dep_rel :: "(string, 'w component) fmap \<Rightarrow> (string \<times> string) set" where
  "dep_rel cs = {(n, d). d \<in> set (deps_of cs n)}"

fun before_in :: "'a list \<Rightarrow> 'a \<Rightarrow> 'a \<Rightarrow> bool" where
  "before_in [] a b = False"
| "before_in (x # xs) a b = (if x = b then False else if x = a then b \<in> set xs else before_in xs a b)"

lemma visit_unfold:
  "visit cs name s =
     (if name \<in> visiting s then Inl (circular name)
      else if name \<in> visited s then Inr s
      else (case visit_deps cs (deps_of cs name) (s\<lparr>visiting := insert name (visiting s)\<rparr>) of
              Inl err \<Rightarrow> Inl err
            | Inr s' \<Rightarrow> Inr (s'\<lparr>visiting := visiting s' - {name},
                     visited := insert name (visited s'),
                     order := order s' @ [name]\<rparr>)))"
  by (simp add: visit.simps deps_of_def split: option.splits)

lemma visit_induct [case_names visit nil cons]:
  assumes v: "\<And>cs name s.
      (name \<notin> visiting s \<Longrightarrow> name \<notin> visited s \<Longrightarrow>
         Q cs (deps_of cs name) (s\<lparr>visiting := insert name (visiting s)\<rparr>)) \<Longrightarrow> P cs name s"
    and n: "\<And>cs s. Q cs [] s"
    and c: "\<And>cs dep deps s. P cs dep s \<Longrightarrow> (\<And>s'. visit cs dep s = Inr s' \<Longrightarrow> Q cs deps s') \<Longrightarrow>
         Q cs (dep # deps) s"
  shows "P cs name s" and "Q cs ds s"
proof (induction cs name s and cs ds s rule: visit_visit_deps.induct)
  case (1 cs name s)
  show ?case
  proof (rule v)
    assume a: "name \<notin> visiting s" "name \<notin> visited s"
    show "Q cs (deps_of cs name) (s\<lparr>visiting := insert name (visiting s)\<rparr>)"
    proof (cases "fmlookup cs name")
      case None
      then show ?thesis by (simp add: deps_of_def n)
    next
      case (Some c)
      show ?thesis
      proof (cases "asInitializer c")
        case None
        with Some show ?thesis by (simp add: deps_of_def n)
      next
        case (Some init)
        with \<open>fmlookup cs name = Some c\<close> 1[OF a] show ?thesis by (simp add: deps_of_def)
      qed
    qed
  qed
next
  case (2 cs s)
  show ?case by (rule n)
next
  case (3 cs dep deps s)
  show ?case by (rule c) (use 3 in auto)
qed

lemma visit_Inr_cases:
  assumes "visit cs name s = Inr s'"
  obtains (seen) "name \<notin> visiting s" "name \<in> visited s" "s' = s"
  | (fresh) s2 where "name \<notin> visiting s" "name \<notin> visited s"
      "visit_deps cs (deps_of cs name) (s\<lparr>visiting := insert name (visiting s)\<rparr>) = Inr s2"
      "s' = s2\<lparr>visiting := visiting s2 - {name}, visited := insert name (visited s2),
                 order := order s2 @ [name]\<rparr>"
  using assms by (subst (asm) visit_unfold) (auto split: if_splits sum.splits)

lemma visit_visiting:
  "visit cs name s = Inr s' \<Longrightarrow> visiting s' = visiting s"
  "visit_deps cs ds s = Inr s' \<Longrightarrow> visiting s' = visiting s"
proof (induction cs name s and cs ds s arbitrary: s' and s' rule: visit_induct)
  case (visit cs name s)
  from visit.prems show ?case
  proof (cases rule: visit_Inr_cases)
    case seen
    then show ?thesis by simp
  next
    case (fresh s2)
    from visit.IH[OF fresh(1,2,3)] have "visiting s2 = insert name (visiting s)" by simp
    with fresh(1,4) show ?thesis by auto
  qed
next
  case (nil cs s)
  then show ?case by simp
next
  case (cons cs dep deps s)
  from cons.prems obtain s1 where s1: "visit cs dep s = Inr s1" and s': "visit_deps cs deps s1 = Inr s'"
    by (cases "visit cs dep s") simp_all
  from cons.IH(1)[OF s1] cons.IH(2)[OF s1 s'] show ?case by simp
qed

lemma before_in_append: "before_in xs a b \<Longrightarrow> before_in (xs @ ys) a b"
  by (induction xs) (auto split: if_splits)

lemma before_in_snoc: "a \<in> set xs \<Longrightarrow> b \<notin> set xs \<Longrightarrow> before_in (xs @ [b]) a b"
  by (induction xs) auto

lemma before_in_set: "before_in xs a b \<Longrightarrow> a \<in> set xs \<and> b \<in> set xs \<and> a \<noteq> b"
  by (induction xs) (auto split: if_splits)

definition first_index :: "'a list \<Rightarrow> 'a \<Rightarrow> nat" where
  "first_index xs x = length (takeWhile (\<lambda>y. y \<noteq> x) xs)"

lemma before_in_first_index: "before_in xs a b \<Longrightarrow> first_index xs a < first_index xs b"
  by (induction xs) (auto simp: first_index_def split: if_splits)

definition dfs_inv :: "(string, 'w component) fmap \<Rightarrow> visit_state \<Rightarrow> bool" where
  "dfs_inv cs s \<longleftrightarrow>
     set (order s) = visited s \<and> distinct (order s) \<and> visited s \<inter> visiting s = {} \<and>
     (\<forall>n \<in> visited s. \<forall>d \<in> set (deps_of cs n). before_in (order s) d n)"

lemma dep_rel_step: "d \<in> set (deps_of cs n) \<Longrightarrow> (dep_rel cs)\<^sup>* `` {d} \<subseteq> (dep_rel cs)\<^sup>* `` {n}"
  by (auto simp: dep_rel_def intro: converse_rtrancl_into_rtrancl)

lemma visit_success:
  "visit cs name s = Inr s' \<Longrightarrow> dfs_inv cs s \<Longrightarrow>
     dfs_inv cs s' \<and> name \<in> visited s' \<and> visited s \<subseteq> visited s' \<and>
     visited s' \<subseteq> visited s \<union> (dep_rel cs)\<^sup>* `` {name}"
  "visit_deps cs ds s = Inr s' \<Longrightarrow> dfs_inv cs s \<Longrightarrow>
     dfs_inv cs s' \<and> set ds \<subseteq> visited s' \<and> visited s \<subseteq> visited s' \<and>
     visited s' \<subseteq> visited s \<union> (dep_rel cs)\<^sup>* `` set ds"
proof (induction cs name s and cs ds s arbitrary: s' and s' rule: visit_induct)
  case (visit cs name s)
  from visit.prems(1) show ?case
  proof (cases rule: visit_Inr_cases)
    case seen
    with visit.prems show ?thesis by auto
  next
    case (fresh s2)
    let ?s1 = "s\<lparr>visiting := insert name (visiting s)\<rparr>"
    from visit.prems(2) fresh(2) have inv1: "dfs_inv cs ?s1" by (auto simp: dfs_inv_def)
    from visit.IH[OF fresh(1,2,3) inv1]
    have inv2: "dfs_inv cs s2" and deps: "set (deps_of cs name) \<subseteq> visited s2"
      and mono: "visited s \<subseteq> visited s2"
      and reach: "visited s2 \<subseteq> visited s \<union> (dep_rel cs)\<^sup>* `` set (deps_of cs name)"
      by auto
    from visit_visiting(2)[OF fresh(3)] have vis2: "visiting s2 = insert name (visiting s)" by simp
    with inv2 have notin: "name \<notin> visited s2" by (auto simp: dfs_inv_def)
    have "dfs_inv cs s'"
      unfolding dfs_inv_def
    proof (intro conjI ballI)
      show "set (order s') = visited s'" using inv2 fresh(4) by (auto simp: dfs_inv_def)
      show "distinct (order s')" using inv2 notin fresh(4) by (auto simp: dfs_inv_def)
      show "visited s' \<inter> visiting s' = {}" using inv2 fresh(4) by (auto simp: dfs_inv_def)
    next
      fix n d assume n: "n \<in> visited s'" and d: "d \<in> set (deps_of cs n)"
      show "before_in (order s') d n"
      proof (cases "n = name")
        case True
        with d deps inv2 notin have "d \<in> set (order s2)" "name \<notin> set (order s2)"
          by (auto simp: dfs_inv_def)
        then show ?thesis using True fresh(4) by (simp add: before_in_snoc)
      next
        case False
        with n fresh(4) have "n \<in> visited s2" by simp
        with inv2 d have "before_in (order s2) d n" by (simp add: dfs_inv_def)
        then show ?thesis using fresh(4) by (simp add: before_in_append)
      qed
    qed
    moreover have "name \<in> visited s'" "visited s \<subseteq> visited s'" using fresh(4) mono by auto
    moreover have "visited s' \<subseteq> visited s \<union> (dep_rel cs)\<^sup>* `` {name}"
    proof -
      have "(dep_rel cs)\<^sup>* `` set (deps_of cs name) \<subseteq> (dep_rel cs)\<^sup>* `` {name}"
      proof
        fix x assume "x \<in> (dep_rel cs)\<^sup>* `` set (deps_of cs name)"
        then obtain d where "d \<in> set (deps_of cs name)" "x \<in> (dep_rel cs)\<^sup>* `` {d}" by blast
        with dep_rel_step[of d cs name] show "x \<in> (dep_rel cs)\<^sup>* `` {name}" by blast
      qed
      with reach have "visited s2 \<subseteq> visited s \<union> (dep_rel cs)\<^sup>* `` {name}" by blast
      then show ?thesis using fresh(4) by auto
    qed
    ultimately show ?thesis by simp
  qed
next
  case (nil cs s)
  then show ?case by simp
next
  case (cons cs dep deps s)
  from cons.prems(1) obtain s1 where s1: "visit cs dep s = Inr s1" and s': "visit_deps cs deps s1 = Inr s'"
    by (cases "visit cs dep s") simp_all
  from cons.IH(1)[OF s1 cons.prems(2)] have 1: "dfs_inv cs s1" "dep \<in> visited s1"
    "visited s \<subseteq> visited s1" "visited s1 \<subseteq> visited s \<union> (dep_rel cs)\<^sup>* `` {dep}" by auto
  from cons.IH(2)[OF s1 s' 1(1)] have 2: "dfs_inv cs s'" "set deps \<subseteq> visited s'"
    "visited s1 \<subseteq> visited s'" "visited s' \<subseteq> visited s1 \<union> (dep_rel cs)\<^sup>* `` set deps" by auto
  have A: "(dep_rel cs)\<^sup>* `` {dep} \<subseteq> (dep_rel cs)\<^sup>* `` set (dep # deps)"
    and B: "(dep_rel cs)\<^sup>* `` set deps \<subseteq> (dep_rel cs)\<^sup>* `` set (dep # deps)"
    by (rule Image_mono; auto)+
  have "set (dep # deps) \<subseteq> visited s'" using 1(2) 2(2,3) by auto
  moreover have "visited s \<subseteq> visited s'" using 1(3) 2(3) by (rule subset_trans)
  moreover have "visited s' \<subseteq> visited s \<union> (dep_rel cs)\<^sup>* `` set (dep # deps)"
  proof
    fix x assume "x \<in> visited s'"
    with 2(4) have "x \<in> visited s1 \<or> x \<in> (dep_rel cs)\<^sup>* `` set deps" by blast
    with 1(4) have "x \<in> visited s \<or> x \<in> (dep_rel cs)\<^sup>* `` {dep}
        \<or> x \<in> (dep_rel cs)\<^sup>* `` set deps" by blast
    with A B show "x \<in> visited s \<union> (dep_rel cs)\<^sup>* `` set (dep # deps)" by blast
  qed
  ultimately show ?case using 2(1) by simp
qed

lemma visit_failure:
  "visit cs name s = Inl e \<Longrightarrow> (\<forall>m \<in> visiting s. (m, name) \<in> (dep_rel cs)\<^sup>+) \<Longrightarrow>
     \<exists>m. e = circular m \<and> (m, m) \<in> (dep_rel cs)\<^sup>+"
  "visit_deps cs ds s = Inl e \<Longrightarrow> (\<forall>m \<in> visiting s. \<forall>d \<in> set ds. (m, d) \<in> (dep_rel cs)\<^sup>+) \<Longrightarrow>
     \<exists>m. e = circular m \<and> (m, m) \<in> (dep_rel cs)\<^sup>+"
proof (induction cs name s and cs ds s rule: visit_induct)
  case (visit cs name s)
  show ?case
  proof (cases "name \<in> visiting s")
    case True
    with visit.prems show ?thesis by (auto simp: visit_unfold)
  next
    case False
    with visit.prems(1) have nv: "name \<notin> visited s"
      and e: "visit_deps cs (deps_of cs name) (s\<lparr>visiting := insert name (visiting s)\<rparr>) = Inl e"
      by (auto simp: visit_unfold split: if_splits sum.splits)
    have "\<forall>m \<in> visiting (s\<lparr>visiting := insert name (visiting s)\<rparr>).
            \<forall>d \<in> set (deps_of cs name). (m, d) \<in> (dep_rel cs)\<^sup>+"
      using visit.prems(2) by (auto simp: dep_rel_def intro: trancl_into_trancl)
    from visit.IH[OF False nv e this] show ?thesis .
  qed
next
  case (nil cs s)
  then show ?case by simp
next
  case (cons cs dep deps s)
  show ?case
  proof (cases "visit cs dep s")
    case (Inl e')
    with cons.prems have "e' = e" by simp
    with Inl cons.IH(1) cons.prems(2) show ?thesis by auto
  next
    case (Inr s1)
    with cons.prems have "visit_deps cs deps s1 = Inl e" by simp
    moreover from visit_visiting(1)[OF Inr] have "visiting s1 = visiting s" .
    ultimately show ?thesis using cons.IH(2)[OF Inr] cons.prems(2) by auto
  qed
qed

section \<open>The order that topologicalSort returns\<close>

lemma visit_all_eq: "visit_all cs names s = visit_deps cs names s"
  by (induction names arbitrary: s) (simp_all split: sum.splits)

definition declared :: "(string, 'w component) fmap \<Rightarrow> string set" where
  "declared cs = fmdom' cs \<union> (\<Union>n \<in> fmdom' cs. set (deps_of cs n))"

lemma deps_of_registered: "d \<in> set (deps_of cs n) \<Longrightarrow> n \<in> fmdom' cs"
  by (cases "fmlookup cs n") (auto simp: deps_of_def fmlookup_dom'_iff)

lemma reachable_declared: "(dep_rel cs)\<^sup>* `` fmdom' cs \<subseteq> declared cs"
proof
  fix x assume "x \<in> (dep_rel cs)\<^sup>* `` fmdom' cs"
  then obtain n where n: "n \<in> fmdom' cs" and r: "(n, x) \<in> (dep_rel cs)\<^sup>*" by blast
  from r show "x \<in> declared cs"
  proof (cases rule: rtranclE)
    case base
    with n show ?thesis by (simp add: declared_def)
  next
    case (step y)
    then have "x \<in> set (deps_of cs y)" by (simp add: dep_rel_def)
    with deps_of_registered[OF this] show ?thesis by (auto simp: declared_def)
  qed
qed

lemma before_in_acyclic:
  assumes "\<And>n d. (n, d) \<in> R \<Longrightarrow> before_in xs d n"
  shows "acyclic R"
proof -
  have "first_index xs d < first_index xs n" if "(n, d) \<in> R" for n d
    using assms[OF that] by (rule before_in_first_index)
  then have "R\<inverse> \<subseteq> measure (first_index xs)" by auto
  then have "wf (R\<inverse>)" by (rule wf_subset[OF wf_measure])
  then have "acyclic (R\<inverse>)" by (rule wf_acyclic)
  then show ?thesis by (simp only: acyclic_converse)
qed

lemma dfs_inv_init: "dfs_inv cs \<lparr>order = [], visited = {}, visiting = {}\<rparr>"
  by (simp add: dfs_inv_def)

lemma names_set: "set (sorted_list_of_fset (fmdom cs)) = fmdom' cs"
  by (simp add: fmdom'_alt_def)

lemma topologicalSort_Inr:
  assumes "topologicalSort r = Inr ord"
  shows "distinct ord" and "set ord = declared (components r)"
    and "\<And>n d. d \<in> set (deps_of (components r) n) \<Longrightarrow> before_in ord d n"
    and "acyclic (dep_rel (components r))"
proof -
  let ?cs = "components r"
  let ?s0 = "\<lparr>order = [], visited = {}, visiting = {}\<rparr>"
  from assms obtain s where s: "visit_deps ?cs (sorted_list_of_fset (fmdom ?cs)) ?s0 = Inr s"
    and ord: "ord = order s"
    by (auto simp: topologicalSort_def visit_all_eq split: sum.splits)
  from visit_success(2)[OF s dfs_inv_init, unfolded names_set]
  have inv: "dfs_inv ?cs s" and names: "fmdom' ?cs \<subseteq> visited s"
    and reach: "visited s \<subseteq> (dep_rel ?cs)\<^sup>* `` fmdom' ?cs"
    by simp_all
  from inv ord show "distinct ord" by (simp add: dfs_inv_def)
  show before: "before_in ord d n" if "d \<in> set (deps_of ?cs n)" for n d
  proof -
    from deps_of_registered[OF that] names have "n \<in> visited s" by blast
    with inv that ord show ?thesis by (simp add: dfs_inv_def)
  qed
  show "set ord = declared ?cs"
  proof
    from reach reachable_declared[of ?cs] inv ord show "set ord \<subseteq> declared ?cs"
      by (auto simp: dfs_inv_def)
    show "declared ?cs \<subseteq> set ord"
    proof
      fix x assume "x \<in> declared ?cs"
      then consider "x \<in> fmdom' ?cs" | n where "x \<in> set (deps_of ?cs n)"
        by (auto simp: declared_def)
      then show "x \<in> set ord"
      proof cases
        case 1
        with names inv ord show ?thesis by (auto simp: dfs_inv_def)
      next
        case 2
        from before_in_set[OF before[OF 2]] show ?thesis by simp
      qed
    qed
  qed
  show "acyclic (dep_rel ?cs)"
    by (rule before_in_acyclic[of _ ord]) (simp add: dep_rel_def before)
qed

lemma topologicalSort_Inl:
  assumes "topologicalSort r = Inl e"
  shows "\<exists>m. e = circular m \<and> (m, m) \<in> (dep_rel (components r))\<^sup>+"
proof -
  let ?cs = "components r"
  let ?s0 = "\<lparr>order = [], visited = {}, visiting = {}\<rparr>"
  from assms have "visit_deps ?cs (sorted_list_of_fset (fmdom ?cs)) ?s0 = Inl e"
    by (auto simp: topologicalSort_def visit_all_eq split: sum.splits)
  from visit_failure(2)[OF this] show ?thesis by simp
qed

lemma topologicalSort_acyclic:
  assumes "acyclic (dep_rel (components r))"
  obtains ord where "topologicalSort r = Inr ord"
proof (cases "topologicalSort r")
  case (Inl e)
  from topologicalSort_Inl[OF Inl] assms show ?thesis by (auto simp: acyclic_def)
next
  case (Inr ord)
  then show ?thesis by (rule that)
qed

lemma topologicalSort_components:
  "components r' = components r \<Longrightarrow> topologicalSort r' = topologicalSort r"
  by (simp add: topologicalSort_def)

definition key_of :: "'w component \<Rightarrow> string option" where
  "key_of c = map_option Name (asInitializer c)"

lemma Register_commute:
  assumes "a = b \<or> key_of a \<noteq> key_of b \<or> key_of a = None"
  shows "Register a (Register b r) = Register b (Register a r)"
  using assms
  by (auto simp: Register_def key_of_def fmupd_reorder_neq split: option.splits)

lemma fold_Register_perm:
  assumes "\<And>a b. a \<in> set regs \<Longrightarrow> b \<in> set regs \<Longrightarrow> a = b \<or> key_of a \<noteq> key_of b \<or> key_of a = None"
    and "mset regs = mset regs'"
  shows "fold Register regs r = fold Register regs' r"
proof -
  have "fold Register regs = fold Register regs'"
  proof (rule fold_multiset_equiv[OF _ assms(2)])
    fix a b assume "a \<in> set regs" "b \<in> set regs"
    from assms(1)[OF this] show "Register a \<circ> Register b = Register b \<circ> Register a"
      by (auto simp: fun_eq_iff intro: Register_commute)
  qed
  then show ?thesis by simp
qed

section \<open>Initialize walks the order linearly\<close>

text \<open>
  When \<^verbatim>\<open>Initialize\<close> reaches a name, every name before it in the order is already
  initialized, and the order puts the dependencies of a name before it: the recursive
  calls of \<^verbatim>\<open>initOne\<close> find nothing to do, and a recursion depth of one is enough.
\<close>

lemma initDeps_done: "set ds \<subseteq> initialized r \<Longrightarrow> initDeps fuel ds r w = Some (None, r, w)"
  by (induction ds) simp_all

definition initStep :: "string \<Rightarrow> 'w Registry \<Rightarrow> 'w World \<Rightarrow> error option \<times> 'w Registry \<times> 'w World" where
  "initStep name r w =
     (if name \<in> initialized r then (None, r, w)
      else
        (case fmlookup (components r) name of
           None \<Rightarrow> (Some (unknown_component name), r, w)
         | Some c \<Rightarrow>
             (case asInitializer c of
                None \<Rightarrow> (Some (not_Initializer name), r, w)
              | Some init \<Rightarrow>
                  (case Init init (env w) of
                     (Some err, e') \<Rightarrow>
                       (Some err, r, w\<lparr>env := e', calls := calls w @ [InitCall name (Some err)]\<rparr>)
                   | (None, e') \<Rightarrow>
                       (None, r\<lparr>initialized := insert name (initialized r)\<rparr>,
                        w\<lparr>env := e', calls := calls w @ [InitCall name None]\<rparr>)))))"

lemma initOne_step:
  assumes "set (deps_of (components r) name) \<subseteq> initialized r"
  shows "initOne (Suc fuel) name r w = Some (initStep name r w)"
proof (cases "name \<in> initialized r")
  case True
  then show ?thesis by (simp add: initStep_def)
next
  case False
  show ?thesis
  proof (cases "fmlookup (components r) name")
    case None
    with False show ?thesis by (simp add: initStep_def)
  next
    case (Some c)
    show ?thesis
    proof (cases "asInitializer c")
      case None
      with False Some show ?thesis by (simp add: initStep_def)
    next
      case (Some init)
      with assms \<open>fmlookup (components r) name = Some c\<close>
      have "initDeps fuel (Dependencies init) r w = Some (None, r, w)"
        by (intro initDeps_done) (simp add: deps_of_def)
      with False Some \<open>fmlookup (components r) name = Some c\<close> show ?thesis
        by (simp add: initStep_def split: prod.splits option.splits)
    qed
  qed
qed

fun walk :: "string list \<Rightarrow> 'w Registry \<Rightarrow> 'w World \<Rightarrow> error option \<times> 'w Registry \<times> 'w World" where
  "walk [] r w = (None, r, w)"
| "walk (name # names) r w =
     (case initStep name r w of
        (Some err, r', w') \<Rightarrow> (Some (initializing name err), r', w')
      | (None, r', w') \<Rightarrow> walk names r' w')"

fun deps_ready :: "(string, 'w component) fmap \<Rightarrow> string set \<Rightarrow> string list \<Rightarrow> bool" where
  "deps_ready cs I [] = True"
| "deps_ready cs I (n # ns) = (set (deps_of cs n) \<subseteq> I \<and> deps_ready cs (insert n I) ns)"

lemma initStep_frame:
  assumes "initStep name r w = (res, r', w')"
  shows "components r' = components r" "initOrder r' = initOrder r" "shutdownHooks r' = shutdownHooks r"
    and "res = None \<Longrightarrow> initialized r' = insert name (initialized r)"
    and "res \<noteq> None \<Longrightarrow> r' = r"
  using assms
  by (auto simp: initStep_def split: if_splits option.splits prod.splits)

lemma initAll_walk:
  "deps_ready (components r) (initialized r) names \<Longrightarrow>
   initAll (Suc fuel) names r w = Some (walk names r w)"
proof (induction names arbitrary: r w)
  case Nil
  show ?case by simp
next
  case (Cons name names)
  from Cons.prems have deps: "set (deps_of (components r) name) \<subseteq> initialized r"
    and rest: "deps_ready (components r) (insert name (initialized r)) names" by simp_all
  obtain res r' w' where step: "initStep name r w = (res, r', w')" by (cases "initStep name r w")
  show ?case
  proof (cases res)
    case None
    with initStep_frame(1,4)[OF step] rest
    have "deps_ready (components r') (initialized r') names" by simp
    from Cons.IH[OF this] None step initOne_step[OF deps] show ?thesis by simp
  next
    case (Some err)
    with step initOne_step[OF deps] show ?thesis by simp
  qed
qed

lemma before_in_split: "before_in (pre @ n # post) d n \<Longrightarrow> n \<notin> set pre \<Longrightarrow> d \<in> set pre"
  by (induction pre) (auto split: if_splits)

lemma deps_ready_sorted:
  assumes "\<And>n d. d \<in> set (deps_of cs n) \<Longrightarrow> before_in (pre @ names) d n"
    and "distinct (pre @ names)" and "set pre \<subseteq> I"
  shows "deps_ready cs I names"
  using assms
proof (induction names arbitrary: pre I)
  case Nil
  show ?case by simp
next
  case (Cons n ns)
  have "set (deps_of cs n) \<subseteq> I"
  proof
    fix d assume "d \<in> set (deps_of cs n)"
    from Cons.prems(1)[OF this] Cons.prems(2) have "d \<in> set pre"
      by (intro before_in_split[of pre n ns d]) auto
    with Cons.prems(3) show "d \<in> I" by blast
  qed
  moreover have "deps_ready cs (insert n I) ns"
  proof (rule Cons.IH[of "pre @ [n]"])
    show "before_in ((pre @ [n]) @ ns) d m" if "d \<in> set (deps_of cs m)" for m d
      using Cons.prems(1)[OF that] by simp
    show "distinct ((pre @ [n]) @ ns)" using Cons.prems(2) by simp
    show "set (pre @ [n]) \<subseteq> insert n I" using Cons.prems(3) by auto
  qed
  ultimately show ?case by simp
qed

lemma Initialize_walk:
  assumes "topologicalSort r = Inr ord"
  shows "Initialize (Suc fuel) r w = Some (walk ord (r\<lparr>initOrder := ord\<rparr>) w)"
proof -
  have "deps_ready (components r) (initialized r) ord"
    by (rule deps_ready_sorted[of _ "[]"])
       (use topologicalSort_Inr(1,3)[OF assms] in simp_all)
  then have "initAll (Suc fuel) ord (r\<lparr>initOrder := ord\<rparr>) w = Some (walk ord (r\<lparr>initOrder := ord\<rparr>) w)"
    by (intro initAll_walk) simp
  with assms show ?thesis by (simp add: Initialize_def)
qed

lemma Initialize_cycle:
  "topologicalSort r = Inl e \<Longrightarrow> Initialize fuel r w = Some (Some e, r, w)"
  by (simp add: Initialize_def)

lemma initStep_None:
  assumes "initStep name r w = (None, r', w')"
  shows "components r' = components r" and "initialized r' = insert name (initialized r)"
    and "calls w' = calls w @ (if name \<in> initialized r then [] else [InitCall name None])"
  using assms
  by (auto simp: initStep_def split: if_splits option.splits prod.splits)

lemma initStep_Some:
  assumes "initStep name r w = (Some e, r', w')"
  shows "r' = r" and "name \<notin> initialized r"
    and "(fmlookup (components r) name = None \<and> e = unknown_component name \<and> calls w' = calls w) \<or>
         (\<exists>c. fmlookup (components r) name = Some c \<and> asInitializer c = None \<and>
              e = not_Initializer name \<and> calls w' = calls w) \<or>
         (\<exists>c i. fmlookup (components r) name = Some c \<and> asInitializer c = Some i \<and>
              calls w' = calls w @ [InitCall name (Some e)])"
  using assms
  by (auto simp: initStep_def split: if_splits option.splits prod.splits)

lemma walk_Cons_None:
  "initStep name r w = (None, r1, w1) \<Longrightarrow> walk (name # names) r w = walk names r1 w1"
  by simp

lemma walk_Cons_Some:
  "initStep name r w = (Some e, r1, w1) \<Longrightarrow>
   walk (name # names) r w = (Some (initializing name e), r1, w1)"
  by simp

lemma walk_frame:
  "walk names r w = (res, r', w') \<Longrightarrow>
     components r' = components r \<and> initOrder r' = initOrder r \<and>
     shutdownHooks r' = shutdownHooks r \<and> initialized r \<subseteq> initialized r'"
proof (induction names arbitrary: r w)
  case Nil
  then show ?case by simp
next
  case (Cons name names)
  obtain x r1 w1 where step: "initStep name r w = (x, r1, w1)" by (cases "initStep name r w")
  show ?case
  proof (cases x)
    case None
    with step Cons.prems have "walk names r1 w1 = (res, r', w')" by simp
    from Cons.IH[OF this] initStep_frame(1,2,3,4)[OF step] None show ?thesis by auto
  next
    case (Some e)
    with step Cons.prems initStep_frame(5)[OF step] show ?thesis by auto
  qed
qed

lemma walk_Cons_is_None:
  assumes "walk (name # names) r w = (None, r', w')"
  obtains r1 w1 where "initStep name r w = (None, r1, w1)" "walk names r1 w1 = (None, r', w')"
proof -
  obtain x r1 w1 where step: "initStep name r w = (x, r1, w1)" by (cases "initStep name r w")
  show ?thesis
  proof (cases x)
    case None
    with step assms have "walk names r1 w1 = (None, r', w')" by simp
    with step None show ?thesis by (intro that) simp_all
  next
    case (Some e)
    with step assms show ?thesis by simp
  qed
qed

lemma walk_success:
  assumes "walk names r w = (None, r', w')"
  shows "initialized r' = initialized r \<union> set names"
    and "distinct names \<Longrightarrow>
         calls w' = calls w @ map (\<lambda>n. InitCall n None) [n \<leftarrow> names. n \<notin> initialized r]"
  using assms
proof (induction names arbitrary: r w)
  case Nil
  { case 1 then show ?case by simp }
  { case 2 then show ?case by simp }
next
  case (Cons name names)
  { case 1
    then obtain r1 w1 where step: "initStep name r w = (None, r1, w1)"
      and rest: "walk names r1 w1 = (None, r', w')" by (rule walk_Cons_is_None)
    from Cons.IH(1)[OF rest] initStep_None(2)[OF step] show ?case by auto }
  { case 2
    from 2(2) obtain r1 w1 where step: "initStep name r w = (None, r1, w1)"
      and rest: "walk names r1 w1 = (None, r', w')" by (rule walk_Cons_is_None)
    from 2(1) have d: "distinct names" and n: "name \<notin> set names" by simp_all
    from n have "[n \<leftarrow> names. n \<notin> insert name (initialized r)] = [n \<leftarrow> names. n \<notin> initialized r]"
      by (intro filter_cong) auto
    with Cons.IH(2)[OF d rest] initStep_None(2,3)[OF step] show ?case by simp }
qed

text \<open>What a failing step at \<open>n\<close> with error \<open>e\<close> adds to the recorded calls.\<close>

definition failed_init :: "(string, 'w component) fmap \<Rightarrow> string \<Rightarrow> error \<Rightarrow> event list" where
  "failed_init cs n e =
     (case fmlookup cs n of
        None \<Rightarrow> []
      | Some c \<Rightarrow> (case asInitializer c of None \<Rightarrow> [] | Some i \<Rightarrow> [InitCall n (Some e)]))"

lemma initStep_Some_events:
  assumes "initStep name r w = (Some e, r', w')"
  shows "calls w' = calls w @ failed_init (components r) name e"
    and "fmlookup (components r) name = None \<Longrightarrow> e = unknown_component name"
    and "\<And>c. fmlookup (components r) name = Some c \<Longrightarrow> asInitializer c = None \<Longrightarrow>
           e = not_Initializer name"
  using initStep_Some(3)[OF assms] by (auto simp: failed_init_def)

lemma walk_failure:
  assumes "walk names r w = (Some err, r', w')" and "distinct names"
  shows "\<exists>pre n post e. names = pre @ n # post \<and> err = initializing n e \<and>
           n \<notin> initialized r \<and> initialized r' = initialized r \<union> set pre \<and>
           calls w' = calls w @ map (\<lambda>m. InitCall m None) [m \<leftarrow> pre. m \<notin> initialized r]
                        @ failed_init (components r) n e \<and>
           (fmlookup (components r) n = None \<longrightarrow> e = unknown_component n) \<and>
           (\<forall>c. fmlookup (components r) n = Some c \<and> asInitializer c = None \<longrightarrow>
                  e = not_Initializer n)"
  using assms
proof (induction names arbitrary: r w)
  case Nil
  then show ?case by simp
next
  case (Cons x xs)
  obtain res r1 w1 where step: "initStep x r w = (res, r1, w1)" by (cases "initStep x r w")
  show ?case
  proof (cases res)
    case (Some e)
    with step Cons.prems(1) have err: "err = initializing x e" and r': "r' = r1" and w': "w' = w1"
      by simp_all
    note st = step[unfolded Some]
    from initStep_Some(1,2)[OF st] initStep_Some_events[OF st] err r' w'
    have "x # xs = [] @ x # xs \<and> err = initializing x e \<and>
           x \<notin> initialized r \<and> initialized r' = initialized r \<union> set [] \<and>
           calls w' = calls w @ map (\<lambda>m. InitCall m None) [m \<leftarrow> []. m \<notin> initialized r]
                        @ failed_init (components r) x e \<and>
           (fmlookup (components r) x = None \<longrightarrow> e = unknown_component x) \<and>
           (\<forall>c. fmlookup (components r) x = Some c \<and> asInitializer c = None \<longrightarrow>
                  e = not_Initializer x)"
      by simp
    then show ?thesis
      by - (rule exI[of _ "[]"], rule exI[of _ x], rule exI[of _ xs], rule exI[of _ e])
  next
    case None
    note st = step[unfolded None]
    from st Cons.prems(1) have rest: "walk xs r1 w1 = (Some err, r', w')" by simp
    from Cons.prems(2) have d: "distinct xs" and x: "x \<notin> set xs" by simp_all
    from Cons.IH[OF rest d] obtain pre n post e where
      xs: "xs = pre @ n # post" and err: "err = initializing n e"
      and n: "n \<notin> initialized r1" and ini: "initialized r' = initialized r1 \<union> set pre"
      and cl: "calls w' = calls w1 @ map (\<lambda>m. InitCall m None) [m \<leftarrow> pre. m \<notin> initialized r1]
                        @ failed_init (components r1) n e"
      and u: "fmlookup (components r1) n = None \<longrightarrow> e = unknown_component n"
      and ni: "\<forall>c. fmlookup (components r1) n = Some c \<and> asInitializer c = None \<longrightarrow>
                  e = not_Initializer n"
      by (elim exE conjE) (rule that)
    note s1 = initStep_None[OF st]
    from x xs have "x \<notin> set pre" by simp
    then have flt: "[m \<leftarrow> pre. m \<notin> insert x (initialized r)] = [m \<leftarrow> pre. m \<notin> initialized r]"
      by (intro filter_cong) auto
    have 1: "x # xs = (x # pre) @ n # post" using xs by simp
    have 2: "n \<notin> initialized r" using n s1(2) by simp
    have 3: "initialized r' = initialized r \<union> set (x # pre)" using ini s1(2) by auto
    have 4: "calls w' = calls w @ map (\<lambda>m. InitCall m None) [m \<leftarrow> x # pre. m \<notin> initialized r]
                        @ failed_init (components r) n e"
      using cl s1 flt by simp
    have 5: "fmlookup (components r) n = None \<longrightarrow> e = unknown_component n"
      using u s1(1) by simp
    have 6: "\<forall>c. fmlookup (components r) n = Some c \<and> asInitializer c = None \<longrightarrow>
                  e = not_Initializer n"
      using ni s1(1) by simp
    show ?thesis
      by (rule exI[of _ "x # pre"], rule exI[of _ n], rule exI[of _ post], rule exI[of _ e])
         (intro conjI 1 err 2 3 4 5 6)
  qed
qed

definition all_Initializers :: "(string, 'w component) fmap \<Rightarrow> bool" where
  "all_Initializers cs = fmpred (\<lambda>name c. asInitializer c \<noteq> None) cs"

lemma all_InitializersD:
  "all_Initializers cs \<Longrightarrow> fmlookup cs n = Some c \<Longrightarrow> \<exists>i. asInitializer c = Some i"
  by (auto simp: all_Initializers_def fmpred_iff)





text \<open>
  The init action stored under a name, the environment that the inits of a list of names
  leave when they run one after the other, and whether each of them returns \<^verbatim>\<open>nil\<close> on
  the environment the previous ones left.
\<close>

definition init_of :: "(string, 'w component) fmap \<Rightarrow> string \<Rightarrow> 'w \<Rightarrow> error option \<times> 'w" where
  "init_of cs name e =
     (case fmlookup cs name of
        Some c \<Rightarrow> (case asInitializer c of Some init \<Rightarrow> Init init e | None \<Rightarrow> (None, e))
      | None \<Rightarrow> (None, e))"

fun run_inits :: "(string, 'w component) fmap \<Rightarrow> string list \<Rightarrow> 'w \<Rightarrow> 'w" where
  "run_inits cs [] e = e"
| "run_inits cs (name # names) e = run_inits cs names (snd (init_of cs name e))"

fun all_succeed :: "(string, 'w component) fmap \<Rightarrow> string list \<Rightarrow> 'w \<Rightarrow> bool" where
  "all_succeed cs [] e = True"
| "all_succeed cs (name # names) e =
     (fst (init_of cs name e) = None \<and> all_succeed cs names (snd (init_of cs name e)))"

lemma initStep_fresh:
  assumes "all_Initializers (components r)" "name \<in> fmdom' (components r)" "name \<notin> initialized r"
    and "init_of (components r) name (env w) = (x, e')"
  shows "initStep name r w =
           (x, if x = None then r\<lparr>initialized := insert name (initialized r)\<rparr> else r,
            w\<lparr>env := e', calls := calls w @ [InitCall name x]\<rparr>)"
proof -
  from assms(2) obtain c where c: "fmlookup (components r) name = Some c"
    by (auto simp: fmlookup_dom'_iff)
  from all_InitializersD[OF assms(1) c] obtain i where i: "asInitializer c = Some i" by auto
  from assms(4) c i have "Init i (env w) = (x, e')" by (simp add: init_of_def)
  with c i assms(3) show ?thesis by (cases x) (simp_all add: initStep_def)
qed

lemma walk_fresh:
  assumes "all_Initializers (components r)"
  shows "set names \<subseteq> fmdom' (components r) \<Longrightarrow> distinct names \<Longrightarrow>
         set names \<inter> initialized r = {} \<Longrightarrow> walk names r w = (res, r', w') \<Longrightarrow>
     (case res of
        None \<Rightarrow>
          all_succeed (components r) names (env w) \<and>
          env w' = run_inits (components r) names (env w) \<and>
          initialized r' = initialized r \<union> set names \<and>
          calls w' = calls w @ map (\<lambda>n. InitCall n None) names
      | Some err \<Rightarrow>
          \<exists>pre n post e.
            names = pre @ n # post \<and> err = initializing n e \<and>
            all_succeed (components r) pre (env w) \<and>
            init_of (components r) n (run_inits (components r) pre (env w)) = (Some e, env w') \<and>
            calls w' = calls w @ map (\<lambda>m. InitCall m None) pre @ [InitCall n (Some e)] \<and>
            initialized r' = initialized r \<union> set pre)"
  using assms
proof (induction names arbitrary: r w)
  case Nil
  then show ?case by simp
next
  case (Cons x xs)
  let ?cs = "components r"
  from Cons.prems have x: "x \<in> fmdom' ?cs" "x \<notin> initialized r" "x \<notin> set xs"
    and xs: "set xs \<subseteq> fmdom' ?cs" "distinct xs" "set xs \<inter> initialized r = {}"
    by auto
  obtain y e' where call: "init_of ?cs x (env w) = (y, e')" by (cases "init_of ?cs x (env w)")
  note step = initStep_fresh[OF Cons.prems(5) x(1,2) call]
  show ?case
  proof (cases y)
    case (Some e)
    with step Cons.prems(4) have r: "res = Some (initializing x e)" "r' = r"
      "w' = w\<lparr>env := e', calls := calls w @ [InitCall x (Some e)]\<rparr>" by simp_all
    from call Some r have
      "x # xs = [] @ x # xs \<and> initializing x e = initializing x e \<and>
            all_succeed ?cs [] (env w) \<and>
            init_of ?cs x (run_inits ?cs [] (env w)) = (Some e, env w') \<and>
            calls w' = calls w @ map (\<lambda>m. InitCall m None) [] @ [InitCall x (Some e)] \<and>
            initialized r' = initialized r \<union> set []" by simp
    then have "\<exists>pre n post e'.
            x # xs = pre @ n # post \<and> initializing x e = initializing n e' \<and>
            all_succeed ?cs pre (env w) \<and>
            init_of ?cs n (run_inits ?cs pre (env w)) = (Some e', env w') \<and>
            calls w' = calls w @ map (\<lambda>m. InitCall m None) pre @ [InitCall n (Some e')] \<and>
            initialized r' = initialized r \<union> set pre"
      by - (rule exI[of _ "[]"], rule exI[of _ x], rule exI[of _ xs], rule exI[of _ e])
    with r(1) show ?thesis by simp
  next
    case None
    let ?r1 = "r\<lparr>initialized := insert x (initialized r)\<rparr>"
    let ?w1 = "w\<lparr>env := e', calls := calls w @ [InitCall x None]\<rparr>"
    from None step Cons.prems(4) have rest: "walk xs ?r1 ?w1 = (res, r', w')" by simp
    have pre1: "set xs \<subseteq> fmdom' (components ?r1)" "set xs \<inter> initialized ?r1 = {}"
      "all_Initializers (components ?r1)"
      using xs x(3) Cons.prems(5) by auto
    note IH = Cons.IH[OF pre1(1) xs(2) pre1(2) rest pre1(3)]
    from call None have c1: "fst (init_of ?cs x (env w)) = None" "snd (init_of ?cs x (env w)) = e'"
      by simp_all
    show ?thesis
    proof (cases res)
      case None
      with IH c1 show ?thesis by simp
    next
      case (Some err)
      from IH[unfolded Some option.case] obtain pre n post e where
        p: "xs = pre @ n # post" "err = initializing n e"
          "all_succeed ?cs pre e'"
          "init_of ?cs n (run_inits ?cs pre e') = (Some e, env w')"
          "calls w' = calls w @ [InitCall x None] @ map (\<lambda>m. InitCall m None) pre @ [InitCall n (Some e)]"
          "initialized r' = insert x (initialized r) \<union> set pre"
        by (elim exE conjE) simp
      from p c1 have
        "x # xs = (x # pre) @ n # post \<and> err = initializing n e \<and>
            all_succeed ?cs (x # pre) (env w) \<and>
            init_of ?cs n (run_inits ?cs (x # pre) (env w)) = (Some e, env w') \<and>
            calls w' = calls w @ map (\<lambda>m. InitCall m None) (x # pre) @ [InitCall n (Some e)] \<and>
            initialized r' = initialized r \<union> set (x # pre)" by simp
      then have "\<exists>pre n post e.
            x # xs = pre @ n # post \<and> err = initializing n e \<and>
            all_succeed ?cs pre (env w) \<and>
            init_of ?cs n (run_inits ?cs pre (env w)) = (Some e, env w') \<and>
            calls w' = calls w @ map (\<lambda>m. InitCall m None) pre @ [InitCall n (Some e)] \<and>
            initialized r' = initialized r \<union> set pre"
        by - (rule exI[of _ "x # pre"], rule exI[of _ n], rule exI[of _ post], rule exI[of _ e])
      with Some show ?thesis by simp
    qed
  qed
qed

text \<open>
  A registry that has only seen \<^verbatim>\<open>Register\<close> calls stores nothing but Initializers
  and has marked nothing initialized.
\<close>

lemma Register_all_Initializers:
  assumes "all_Initializers (components r)"
  shows "all_Initializers (components (Register c r))"
proof (cases "asInitializer c")
  case None
  with assms show ?thesis by (simp add: Register_def)
next
  case (Some i)
  with assms show ?thesis
    by (simp add: Register_def all_Initializers_def fmpred_iff)
qed

lemma Register_initialized: "initialized (Register c r) = initialized r"
  by (simp add: Register_def split: option.splits)

lemma fold_Register_fresh:
  "all_Initializers (components r) \<Longrightarrow> all_Initializers (components (fold Register regs r))"
  "initialized (fold Register regs r) = initialized r"
  by (induction regs arbitrary: r) (simp_all add: Register_all_Initializers Register_initialized)

lemma registration_set_fresh:
  "all_Initializers (components (fold Register regs registry))"
  "initialized (fold Register regs registry) = {}"
proof -
  have "all_Initializers (components (registry :: 'a Registry))"
    by (simp add: registry_def all_Initializers_def)
  then show "all_Initializers (components (fold Register regs (registry :: 'a Registry)))"
    by (rule fold_Register_fresh(1))
  show "initialized (fold Register regs (registry :: 'a Registry)) = {}"
    by (simp add: fold_Register_fresh(2) registry_def)
qed

section \<open>Repeated Initialize\<close>

text \<open>\<open>k\<close> calls of \<^verbatim>\<open>Initialize\<close> in a row, whatever each returns.\<close>

fun Initialize_times :: "nat \<Rightarrow> nat \<Rightarrow> 'w Registry \<Rightarrow> 'w World \<Rightarrow> ('w Registry \<times> 'w World) option" where
  "Initialize_times fuel 0 r w = Some (r, w)"
| "Initialize_times fuel (Suc k) r w =
     (case Initialize fuel r w of
        None \<Rightarrow> None
      | Some (res, r', w') \<Rightarrow> Initialize_times fuel k r' w')"

fun init_name :: "event \<Rightarrow> string option" where
  "init_name (InitCall n res) = Some n"
| "init_name _ = None"

text \<open>No init is called for a name after an init for that name has succeeded.\<close>

fun no_reinit :: "event list \<Rightarrow> bool" where
  "no_reinit [] = True"
| "no_reinit (ev # evs) =
     ((case ev of InitCall n None \<Rightarrow> Some n \<notin> set (map init_name evs) | _ \<Rightarrow> True) \<and> no_reinit evs)"

definition succeeded :: "event list \<Rightarrow> string set" where
  "succeeded evs = {n. InitCall n None \<in> set evs}"

definition once_only :: "'w Registry \<Rightarrow> 'w World \<Rightarrow> bool" where
  "once_only r w \<longleftrightarrow> no_reinit (calls w) \<and> succeeded (calls w) \<subseteq> initialized r"

lemma succeeded_simps [simp]:
  "succeeded [] = {}"
  "succeeded (xs @ ys) = succeeded xs \<union> succeeded ys"
  "succeeded [InitCall n None] = {n}"
  "succeeded [InitCall n (Some e)] = {}"
  by (auto simp: succeeded_def)

lemma no_reinit_append:
  "no_reinit (xs @ ys) \<longleftrightarrow>
     no_reinit xs \<and> no_reinit ys \<and> (\<forall>n \<in> succeeded xs. Some n \<notin> set (map init_name ys))"
proof (induction xs)
  case Nil
  show ?case by simp
next
  case (Cons ev xs)
  show ?case
  proof (cases ev)
    case (InitCall n res)
    then show ?thesis using Cons by (cases res) (auto simp: succeeded_def)
  next
    case (ShutdownCall n c res)
    then show ?thesis using Cons by (auto simp: succeeded_def)
  next
    case (HookCall k c res)
    then show ?thesis using Cons by (auto simp: succeeded_def)
  qed
qed

text \<open>What a walk adds to the recorded calls.\<close>

lemma initStep_events:
  assumes "initStep name r w = (res, r', w')"
  shows "\<exists>evs. calls w' = calls w @ evs \<and> no_reinit evs \<and>
           set (map init_name evs) \<subseteq> Some ` (- initialized r) \<and>
           succeeded evs \<subseteq> initialized r'"
proof (cases res)
  case None
  from initStep_None[OF assms[unfolded None]] show ?thesis
    by (cases "name \<in> initialized r") auto
next
  case (Some e)
  note st = assms[unfolded Some]
  from initStep_Some(2)[OF st] initStep_Some_events(1)[OF st]
  show ?thesis by (auto simp: failed_init_def split: option.splits)
qed

lemma walk_events:
  "walk names r w = (res, r', w') \<Longrightarrow>
   \<exists>evs. calls w' = calls w @ evs \<and> no_reinit evs \<and>
         set (map init_name evs) \<subseteq> Some ` (- initialized r) \<and>
         succeeded evs \<subseteq> initialized r'"
proof (induction names arbitrary: r w)
  case Nil
  then show ?case by simp
next
  case (Cons name names)
  obtain x r1 w1 where step: "initStep name r w = (x, r1, w1)" by (cases "initStep name r w")
  from initStep_events[OF step] obtain evs1 where
    e1: "calls w1 = calls w @ evs1" "no_reinit evs1"
      "set (map init_name evs1) \<subseteq> Some ` (- initialized r)" "succeeded evs1 \<subseteq> initialized r1"
    by (elim exE conjE) (rule that)
  show ?case
  proof (cases x)
    case (Some e)
    with step Cons.prems have "r' = r1" "w' = w1" by simp_all
    with e1 show ?thesis by - (rule exI[of _ evs1], simp)
  next
    case None
    with step Cons.prems have rest: "walk names r1 w1 = (res, r', w')" by simp
    from Cons.IH[OF rest] obtain evs2 where
      e2: "calls w' = calls w1 @ evs2" "no_reinit evs2"
        "set (map init_name evs2) \<subseteq> Some ` (- initialized r1)" "succeeded evs2 \<subseteq> initialized r'"
      by (elim exE conjE) (rule that)
    from initStep_frame(4)[OF step] None have i1: "initialized r1 = insert name (initialized r)"
      by simp
    from walk_frame[OF rest] have mono: "initialized r1 \<subseteq> initialized r'" by simp
    have "calls w' = calls w @ (evs1 @ evs2)" using e1(1) e2(1) by simp
    moreover have "no_reinit (evs1 @ evs2)"
      unfolding no_reinit_append using e1(2,4) e2(2,3) by auto
    moreover have "set (map init_name (evs1 @ evs2)) \<subseteq> Some ` (- initialized r)"
      using e1(3) e2(3) i1 by auto
    moreover have "succeeded (evs1 @ evs2) \<subseteq> initialized r'"
      using e1(4) e2(4) mono by auto
    ultimately show ?thesis by - (rule exI[of _ "evs1 @ evs2"], simp)
  qed
qed

lemma Initialize_total:
  "\<exists>res r' w'. Initialize (Suc fuel) r w = Some (res, r', w')"
proof (cases "topologicalSort r")
  case (Inl e)
  then show ?thesis by (simp add: Initialize_cycle)
next
  case (Inr ord)
  from Initialize_walk[OF Inr, of fuel w] show ?thesis
    by (cases "walk ord (r\<lparr>initOrder := ord\<rparr>) w") simp
qed

lemma Initialize_once_only:
  assumes "Initialize (Suc fuel) r w = Some (res, r', w')" "once_only r w"
  shows "once_only r' w'"
proof (cases "topologicalSort r")
  case (Inl e)
  with assms show ?thesis by (simp add: Initialize_cycle)
next
  case (Inr ord)
  let ?r1 = "r\<lparr>initOrder := ord\<rparr>"
  from Initialize_walk[OF Inr, of fuel w] assms(1) have wk: "walk ord ?r1 w = (res, r', w')"
    by simp
  from walk_events[OF wk] obtain evs where
    e: "calls w' = calls w @ evs" "no_reinit evs"
      "set (map init_name evs) \<subseteq> Some ` (- initialized ?r1)" "succeeded evs \<subseteq> initialized r'"
    by (elim exE conjE) (rule that)
  from walk_frame[OF wk] have mono: "initialized r \<subseteq> initialized r'" by simp
  have "no_reinit (calls w @ evs)"
    unfolding no_reinit_append using assms(2) e(2,3) by (auto simp: once_only_def)
  moreover have "succeeded (calls w @ evs) \<subseteq> initialized r'"
    using assms(2) e(4) mono by (auto simp: once_only_def)
  ultimately show ?thesis using e(1) by (simp add: once_only_def)
qed

lemma Initialize_times_once_only:
  "once_only r w \<Longrightarrow>
   \<exists>r' w'. Initialize_times (Suc fuel) k r w = Some (r', w') \<and> once_only r' w'"
proof (induction k arbitrary: r w)
  case 0
  then show ?case by simp
next
  case (Suc k)
  from Initialize_total[of fuel r w] obtain res r1 w1 where
    i: "Initialize (Suc fuel) r w = Some (res, r1, w1)" by (elim exE)
  from Initialize_once_only[OF i Suc.prems] have "once_only r1 w1" .
  from Suc.IH[OF this] i show ?case by simp
qed

lemma initAll_initialized:
  "set names \<subseteq> initialized r \<Longrightarrow> initAll (Suc fuel) names r w = Some (None, r, w)"
  by (induction names) simp_all

lemma Initialize_again:
  assumes "Initialize (Suc fuel) r w = Some (None, r1, w1)"
  shows "Initialize (Suc fuel') r1 w1 = Some (None, r1, w1)"
proof (cases "topologicalSort r")
  case (Inl e)
  with assms show ?thesis by (simp add: Initialize_cycle)
next
  case (Inr ord)
  let ?r0 = "r\<lparr>initOrder := ord\<rparr>"
  from Initialize_walk[OF Inr, of fuel w] assms have wk: "walk ord ?r0 w = (None, r1, w1)"
    by simp
  from walk_frame[OF wk] have c: "components r1 = components r" and o: "initOrder r1 = ord"
    by simp_all
  from walk_success(1)[OF wk] have "set ord \<subseteq> initialized r1" by simp
  moreover from o have "r1\<lparr>initOrder := ord\<rparr> = r1" by simp
  moreover from topologicalSort_components[OF c] Inr have "topologicalSort r1 = Inr ord" by simp
  ultimately show ?thesis by (simp add: Initialize_def initAll_initialized)
qed

section \<open>Shutdown: the reverse walk and the hooks\<close>

definition has_shutdown :: "(string, 'w component) fmap \<Rightarrow> string \<Rightarrow> bool" where
  "has_shutdown cs name =
     (case fmlookup cs name of Some c \<Rightarrow> asShutdowner c \<noteq> None | None \<Rightarrow> False)"

text \<open>The body of the reverse loop, run over the names in the sequence the loop reads them.\<close>

fun shutdownNames :: "(string, 'w component) fmap \<Rightarrow> context \<Rightarrow> string list \<Rightarrow> 'w World \<Rightarrow>
                        error option \<times> 'w World" where
  "shutdownNames cs ctx [] w = (None, w)"
| "shutdownNames cs ctx (name # names) w =
     (case fmlookup cs name of
        Some c \<Rightarrow>
          (case asShutdowner c of
             Some s \<Rightarrow>
               (case s ctx (env w) of
                  (Some err, e') \<Rightarrow>
                    (Some (shutting_down name err),
                     w\<lparr>env := e', calls := calls w @ [ShutdownCall name ctx (Some err)]\<rparr>)
                | (None, e') \<Rightarrow>
                    shutdownNames cs ctx names
                      (w\<lparr>env := e', calls := calls w @ [ShutdownCall name ctx None]\<rparr>))
           | None \<Rightarrow> shutdownNames cs ctx names w)
      | None \<Rightarrow> shutdownNames cs ctx names w)"

lemma shutdownLoop_names:
  "k \<le> length (initOrder r) \<Longrightarrow>
   shutdownLoop r ctx k w = shutdownNames (components r) ctx (rev (take k (initOrder r))) w"
proof (induction k arbitrary: w)
  case 0
  show ?case by simp
next
  case (Suc k)
  then have k: "k < length (initOrder r)" by simp
  then have "rev (take (Suc k) (initOrder r)) = initOrder r ! k # rev (take k (initOrder r))"
    by (simp add: take_Suc_conv_app_nth)
  moreover from Suc.IH k
  have "shutdownLoop r ctx k w' = shutdownNames (components r) ctx (rev (take k (initOrder r))) w'" for w'
    by simp
  ultimately show ?case
    by (simp add: Let_def shutdownNames.simps(2) split: option.splits prod.splits)
qed

lemma shutdownNames_skip:
  "\<not> has_shutdown cs name \<Longrightarrow> shutdownNames cs ctx (name # names) w = shutdownNames cs ctx names w"
  by (auto simp: has_shutdown_def split: option.splits)

lemma shutdownNames_ok:
  "fmlookup cs name = Some c \<Longrightarrow> asShutdowner c = Some s \<Longrightarrow> s ctx (env w) = (None, e') \<Longrightarrow>
   shutdownNames cs ctx (name # names) w =
     shutdownNames cs ctx names (w\<lparr>env := e', calls := calls w @ [ShutdownCall name ctx None]\<rparr>)"
  by simp

lemma shutdownNames_err:
  "fmlookup cs name = Some c \<Longrightarrow> asShutdowner c = Some s \<Longrightarrow> s ctx (env w) = (Some e, e') \<Longrightarrow>
   shutdownNames cs ctx (name # names) w =
     (Some (shutting_down name e),
      w\<lparr>env := e', calls := calls w @ [ShutdownCall name ctx (Some e)]\<rparr>)"
  by simp

declare shutdownNames.simps(2) [simp del]

lemma shutdownNames_result:
  "shutdownNames cs ctx names w = (res, w') \<Longrightarrow>
   (case res of
      None \<Rightarrow> calls w' = calls w @ map (\<lambda>n. ShutdownCall n ctx None) (filter (has_shutdown cs) names)
    | Some err \<Rightarrow>
        \<exists>pre n post e. names = pre @ n # post \<and> has_shutdown cs n \<and> err = shutting_down n e \<and>
          calls w' = calls w @ map (\<lambda>m. ShutdownCall m ctx None) (filter (has_shutdown cs) pre)
                       @ [ShutdownCall n ctx (Some e)])"
proof (induction names arbitrary: w)
  case Nil
  then show ?case by auto
next
  case (Cons name names)
  show ?case
  proof (cases "has_shutdown cs name")
    case False
    with Cons.prems have rest: "shutdownNames cs ctx names w = (res, w')"
      by (simp add: shutdownNames_skip)
    show ?thesis
    proof (cases res)
      case None
      with Cons.IH[OF rest] False show ?thesis by simp
    next
      case (Some err)
      from Cons.IH[OF rest, unfolded Some option.case] obtain pre n post e where
        p: "names = pre @ n # post" "has_shutdown cs n" "err = shutting_down n e"
          "calls w' = calls w @ map (\<lambda>m. ShutdownCall m ctx None) (filter (has_shutdown cs) pre)
                       @ [ShutdownCall n ctx (Some e)]"
        by (elim exE conjE) (rule that)
      from p False have
        "name # names = (name # pre) @ n # post \<and> has_shutdown cs n \<and> err = shutting_down n e \<and>
          calls w' = calls w @ map (\<lambda>m. ShutdownCall m ctx None) (filter (has_shutdown cs) (name # pre))
                       @ [ShutdownCall n ctx (Some e)]" by simp
      then have "\<exists>pre n post e. name # names = pre @ n # post \<and> has_shutdown cs n \<and>
          err = shutting_down n e \<and>
          calls w' = calls w @ map (\<lambda>m. ShutdownCall m ctx None) (filter (has_shutdown cs) pre)
                       @ [ShutdownCall n ctx (Some e)]"
        by - (rule exI[of _ "name # pre"], rule exI[of _ n], rule exI[of _ post], rule exI[of _ e])
      with Some show ?thesis by simp
    qed
  next
    case True
    then obtain c s where c: "fmlookup cs name = Some c" and s: "asShutdowner c = Some s"
      by (auto simp: has_shutdown_def split: option.splits)
    obtain x e' where call: "s ctx (env w) = (x, e')" by (cases "s ctx (env w)")
    show ?thesis
    proof (cases x)
      case (Some e)
      with Cons.prems shutdownNames_err[OF c s, of ctx w e e' names] call
      have r: "res = Some (shutting_down name e)"
        and w': "w' = w\<lparr>env := e', calls := calls w @ [ShutdownCall name ctx (Some e)]\<rparr>"
        by simp_all
      from True w' have
        "name # names = [] @ name # names \<and> has_shutdown cs name \<and>
          shutting_down name e = shutting_down name e \<and>
          calls w' = calls w @ map (\<lambda>m. ShutdownCall m ctx None) (filter (has_shutdown cs) [])
                       @ [ShutdownCall name ctx (Some e)]" by simp
      then have "\<exists>pre n post e'. name # names = pre @ n # post \<and> has_shutdown cs n \<and>
          shutting_down name e = shutting_down n e' \<and>
          calls w' = calls w @ map (\<lambda>m. ShutdownCall m ctx None) (filter (has_shutdown cs) pre)
                       @ [ShutdownCall n ctx (Some e')]"
        by - (rule exI[of _ "[]"], rule exI[of _ name], rule exI[of _ names], rule exI[of _ e])
      with r show ?thesis by simp
    next
      case None
      let ?w1 = "w\<lparr>env := e', calls := calls w @ [ShutdownCall name ctx None]\<rparr>"
      from None Cons.prems shutdownNames_ok[OF c s, of ctx w e' names] call
      have rest: "shutdownNames cs ctx names ?w1 = (res, w')" by simp
      show ?thesis
      proof (cases res)
        case None
        with Cons.IH[OF rest] True show ?thesis by simp
      next
        case (Some err)
        from Cons.IH[OF rest, unfolded Some option.case] obtain pre n post e where
          p: "names = pre @ n # post" "has_shutdown cs n" "err = shutting_down n e"
            "calls w' = calls ?w1 @ map (\<lambda>m. ShutdownCall m ctx None) (filter (has_shutdown cs) pre)
                       @ [ShutdownCall n ctx (Some e)]"
          by (elim exE conjE) (rule that)
        from p True have
          "name # names = (name # pre) @ n # post \<and> has_shutdown cs n \<and> err = shutting_down n e \<and>
            calls w' = calls w @ map (\<lambda>m. ShutdownCall m ctx None) (filter (has_shutdown cs) (name # pre))
                       @ [ShutdownCall n ctx (Some e)]" by simp
        then have "\<exists>pre n post e. name # names = pre @ n # post \<and> has_shutdown cs n \<and>
            err = shutting_down n e \<and>
            calls w' = calls w @ map (\<lambda>m. ShutdownCall m ctx None) (filter (has_shutdown cs) pre)
                       @ [ShutdownCall n ctx (Some e)]"
          by - (rule exI[of _ "name # pre"], rule exI[of _ n], rule exI[of _ post], rule exI[of _ e])
        with Some show ?thesis by simp
      qed
    qed
  qed
qed

lemma runHooks_result:
  "runHooks ctx k hooks w = (res, w') \<Longrightarrow>
   \<exists>j. j \<le> length hooks \<and>
     calls w' = calls w @ map (\<lambda>i. HookCall i ctx None) [k..<k + j]
                  @ (case res of None \<Rightarrow> [] | Some e \<Rightarrow> [HookCall (k + j) ctx (Some e)]) \<and>
     (case res of
        None \<Rightarrow> j = length hooks
      | Some e \<Rightarrow> j < length hooks \<and>
          fst ((hooks ! j) ctx (fold (\<lambda>h e. snd (h ctx e)) (take j hooks) (env w))) = Some e)"
proof (induction hooks arbitrary: k w)
  case Nil
  then show ?case by auto
next
  case (Cons hook hooks)
  obtain x e' where call: "hook ctx (env w) = (x, e')" by (cases "hook ctx (env w)")
  show ?case
  proof (cases x)
    case (Some e)
    with call Cons.prems have "res = Some e"
      "w' = w\<lparr>env := e', calls := calls w @ [HookCall k ctx (Some e)]\<rparr>" by auto
    with call Some show ?thesis by - (rule exI[of _ 0], simp)
  next
    case None
    let ?w1 = "w\<lparr>env := e', calls := calls w @ [HookCall k ctx None]\<rparr>"
    from None call Cons.prems have rest: "runHooks ctx (Suc k) hooks ?w1 = (res, w')" by simp
    from Cons.IH[OF rest] obtain j where j: "j \<le> length hooks"
      and c: "calls w' = calls ?w1 @ map (\<lambda>i. HookCall i ctx None) [Suc k..<Suc k + j]
                  @ (case res of None \<Rightarrow> [] | Some e \<Rightarrow> [HookCall (Suc k + j) ctx (Some e)])"
      and r: "case res of
        None \<Rightarrow> j = length hooks
      | Some e \<Rightarrow> j < length hooks \<and>
          fst ((hooks ! j) ctx (fold (\<lambda>h e. snd (h ctx e)) (take j hooks) (env ?w1))) = Some e"
      by (elim exE conjE) (rule that)
    have upt: "[k..<k + Suc j] = k # [Suc k..<Suc k + j]" by (simp add: upt_rec)
    have 1: "Suc j \<le> length (hook # hooks)" using j by simp
    have 2: "calls w' = calls w @ map (\<lambda>i. HookCall i ctx None) [k..<k + Suc j]
                  @ (case res of None \<Rightarrow> [] | Some e \<Rightarrow> [HookCall (k + Suc j) ctx (Some e)])"
      using c by (cases res) (simp_all only: upt, simp_all)
    have 3: "case res of
        None \<Rightarrow> Suc j = length (hook # hooks)
      | Some e \<Rightarrow> Suc j < length (hook # hooks) \<and>
          fst (((hook # hooks) ! Suc j) ctx
                 (fold (\<lambda>h e. snd (h ctx e)) (take (Suc j) (hook # hooks)) (env w))) = Some e"
      using r call by (cases res) simp_all
    show ?thesis by (rule exI[of _ "Suc j"]) (intro conjI 1 2 3)
  qed
qed

lemma Shutdown_names:
  "Shutdown r ctx w =
     (case shutdownNames (components r) ctx (rev (initOrder r)) w of
        (Some err, w') \<Rightarrow> (Some err, w')
      | (None, w') \<Rightarrow> runHooks ctx 0 (shutdownHooks r) w')"
  by (simp add: Shutdown_def shutdownLoop_names)

lemma runHooks_result_0:
  assumes "runHooks ctx 0 hooks w = (res, w')"
  shows "\<exists>j. j \<le> length hooks \<and>
     calls w' = calls w @ map (\<lambda>i. HookCall i ctx None) [0..<j]
                  @ (case res of None \<Rightarrow> [] | Some e \<Rightarrow> [HookCall j ctx (Some e)]) \<and>
     (case res of
        None \<Rightarrow> j = length hooks
      | Some e \<Rightarrow> j < length hooks \<and>
          fst ((hooks ! j) ctx (fold (\<lambda>h e. snd (h ctx e)) (take j hooks) (env w))) = Some e)"
proof -
  from runHooks_result[OF assms] obtain j where j: "j \<le> length hooks"
    and c: "calls w' = calls w @ map (\<lambda>i. HookCall i ctx None) [0..<0 + j]
                  @ (case res of None \<Rightarrow> [] | Some e \<Rightarrow> [HookCall (0 + j) ctx (Some e)])"
    and r: "case res of
        None \<Rightarrow> j = length hooks
      | Some e \<Rightarrow> j < length hooks \<and>
          fst ((hooks ! j) ctx (fold (\<lambda>h e. snd (h ctx e)) (take j hooks) (env w))) = Some e"
    by (elim exE conjE) (rule that)
  from c have "calls w' = calls w @ map (\<lambda>i. HookCall i ctx None) [0..<j]
                  @ (case res of None \<Rightarrow> [] | Some e \<Rightarrow> [HookCall j ctx (Some e)])"
    by (cases res) simp_all
  with j r show ?thesis by - (rule exI[of _ j], simp)
qed

text \<open>
  The \<^verbatim>\<open>Shutdown\<close> method stored under a name (a name without one leaves the
  environment as it is), the environment that the methods of a list of names leave when
  they run one after the other, and whether each returns \<^verbatim>\<open>nil\<close> on the environment
  the previous ones left.
\<close>

definition shutdown_of :: "(string, 'w component) fmap \<Rightarrow> context \<Rightarrow> string \<Rightarrow> 'w \<Rightarrow> error option \<times> 'w" where
  "shutdown_of cs ctx name e =
     (case fmlookup cs name of
        Some c \<Rightarrow> (case asShutdowner c of Some s \<Rightarrow> s ctx e | None \<Rightarrow> (None, e))
      | None \<Rightarrow> (None, e))"

fun run_shutdowns :: "(string, 'w component) fmap \<Rightarrow> context \<Rightarrow> string list \<Rightarrow> 'w \<Rightarrow> 'w" where
  "run_shutdowns cs ctx [] e = e"
| "run_shutdowns cs ctx (name # names) e = run_shutdowns cs ctx names (snd (shutdown_of cs ctx name e))"

fun all_shut_down :: "(string, 'w component) fmap \<Rightarrow> context \<Rightarrow> string list \<Rightarrow> 'w \<Rightarrow> bool" where
  "all_shut_down cs ctx [] e = True"
| "all_shut_down cs ctx (name # names) e =
     (fst (shutdown_of cs ctx name e) = None \<and>
      all_shut_down cs ctx names (snd (shutdown_of cs ctx name e)))"

lemma shutdown_of_skip: "\<not> has_shutdown cs name \<Longrightarrow> shutdown_of cs ctx name e = (None, e)"
  by (auto simp: has_shutdown_def shutdown_of_def split: option.splits)

lemma shutdownNames_threaded:
  "shutdownNames cs ctx names w = (res, w') \<Longrightarrow>
   (case res of
      None \<Rightarrow>
        all_shut_down cs ctx names (env w) \<and> env w' = run_shutdowns cs ctx names (env w)
    | Some err \<Rightarrow>
        \<exists>pre n post e. names = pre @ n # post \<and> has_shutdown cs n \<and> err = shutting_down n e \<and>
          all_shut_down cs ctx pre (env w) \<and>
          shutdown_of cs ctx n (run_shutdowns cs ctx pre (env w)) = (Some e, env w') \<and>
          calls w' = calls w @ map (\<lambda>m. ShutdownCall m ctx None) (filter (has_shutdown cs) pre)
                       @ [ShutdownCall n ctx (Some e)])"
proof (induction names arbitrary: w)
  case Nil
  then show ?case by auto
next
  case (Cons name names)
  show ?case
  proof (cases "has_shutdown cs name")
    case False
    with Cons.prems have rest: "shutdownNames cs ctx names w = (res, w')"
      by (simp add: shutdownNames_skip)
    note sk = shutdown_of_skip[OF False, of ctx "env w"]
    show ?thesis
    proof (cases res)
      case None
      with Cons.IH[OF rest] sk show ?thesis by simp
    next
      case (Some err)
      from Cons.IH[OF rest, unfolded Some option.case] obtain pre n post e where
        p: "names = pre @ n # post" "has_shutdown cs n" "err = shutting_down n e"
          "all_shut_down cs ctx pre (env w)"
          "shutdown_of cs ctx n (run_shutdowns cs ctx pre (env w)) = (Some e, env w')"
          "calls w' = calls w @ map (\<lambda>m. ShutdownCall m ctx None) (filter (has_shutdown cs) pre)
                       @ [ShutdownCall n ctx (Some e)]"
        by (elim exE conjE) (rule that)
      from p False sk have
        "name # names = (name # pre) @ n # post \<and> has_shutdown cs n \<and> err = shutting_down n e \<and>
          all_shut_down cs ctx (name # pre) (env w) \<and>
          shutdown_of cs ctx n (run_shutdowns cs ctx (name # pre) (env w)) = (Some e, env w') \<and>
          calls w' = calls w @ map (\<lambda>m. ShutdownCall m ctx None) (filter (has_shutdown cs) (name # pre))
                       @ [ShutdownCall n ctx (Some e)]" by simp
      then have "\<exists>pre n post e. name # names = pre @ n # post \<and> has_shutdown cs n \<and>
          err = shutting_down n e \<and>
          all_shut_down cs ctx pre (env w) \<and>
          shutdown_of cs ctx n (run_shutdowns cs ctx pre (env w)) = (Some e, env w') \<and>
          calls w' = calls w @ map (\<lambda>m. ShutdownCall m ctx None) (filter (has_shutdown cs) pre)
                       @ [ShutdownCall n ctx (Some e)]"
        by - (rule exI[of _ "name # pre"], rule exI[of _ n], rule exI[of _ post], rule exI[of _ e])
      with Some show ?thesis by simp
    qed
  next
    case True
    then obtain c s where c: "fmlookup cs name = Some c" and s: "asShutdowner c = Some s"
      by (auto simp: has_shutdown_def split: option.splits)
    obtain x e' where call: "s ctx (env w) = (x, e')" by (cases "s ctx (env w)")
    with c s have so: "shutdown_of cs ctx name (env w) = (x, e')" by (simp add: shutdown_of_def)
    show ?thesis
    proof (cases x)
      case (Some e)
      with Cons.prems shutdownNames_err[OF c s, of ctx w e e' names] call
      have r: "res = Some (shutting_down name e)"
        and w': "w' = w\<lparr>env := e', calls := calls w @ [ShutdownCall name ctx (Some e)]\<rparr>"
        by simp_all
      from True w' so Some have
        "name # names = [] @ name # names \<and> has_shutdown cs name \<and>
          shutting_down name e = shutting_down name e \<and>
          all_shut_down cs ctx [] (env w) \<and>
          shutdown_of cs ctx name (run_shutdowns cs ctx [] (env w)) = (Some e, env w') \<and>
          calls w' = calls w @ map (\<lambda>m. ShutdownCall m ctx None) (filter (has_shutdown cs) [])
                       @ [ShutdownCall name ctx (Some e)]" by simp
      then have "\<exists>pre n post e'. name # names = pre @ n # post \<and> has_shutdown cs n \<and>
          shutting_down name e = shutting_down n e' \<and>
          all_shut_down cs ctx pre (env w) \<and>
          shutdown_of cs ctx n (run_shutdowns cs ctx pre (env w)) = (Some e', env w') \<and>
          calls w' = calls w @ map (\<lambda>m. ShutdownCall m ctx None) (filter (has_shutdown cs) pre)
                       @ [ShutdownCall n ctx (Some e')]"
        by - (rule exI[of _ "[]"], rule exI[of _ name], rule exI[of _ names], rule exI[of _ e])
      with r show ?thesis by simp
    next
      case None
      let ?w1 = "w\<lparr>env := e', calls := calls w @ [ShutdownCall name ctx None]\<rparr>"
      from None Cons.prems shutdownNames_ok[OF c s, of ctx w e' names] call
      have rest: "shutdownNames cs ctx names ?w1 = (res, w')" by simp
      from so None have s1: "fst (shutdown_of cs ctx name (env w)) = None"
        "snd (shutdown_of cs ctx name (env w)) = e'" by simp_all
      show ?thesis
      proof (cases res)
        case None
        with Cons.IH[OF rest] s1 show ?thesis by simp
      next
        case (Some err)
        from Cons.IH[OF rest, unfolded Some option.case] obtain pre n post e where
          p: "names = pre @ n # post" "has_shutdown cs n" "err = shutting_down n e"
            "all_shut_down cs ctx pre e'"
            "shutdown_of cs ctx n (run_shutdowns cs ctx pre e') = (Some e, env w')"
            "calls w' = calls w @ [ShutdownCall name ctx None]
                       @ map (\<lambda>m. ShutdownCall m ctx None) (filter (has_shutdown cs) pre)
                       @ [ShutdownCall n ctx (Some e)]"
          by (elim exE conjE) simp
        from p True s1 have
          "name # names = (name # pre) @ n # post \<and> has_shutdown cs n \<and> err = shutting_down n e \<and>
            all_shut_down cs ctx (name # pre) (env w) \<and>
            shutdown_of cs ctx n (run_shutdowns cs ctx (name # pre) (env w)) = (Some e, env w') \<and>
            calls w' = calls w @ map (\<lambda>m. ShutdownCall m ctx None) (filter (has_shutdown cs) (name # pre))
                       @ [ShutdownCall n ctx (Some e)]" by simp
        then have "\<exists>pre n post e. name # names = pre @ n # post \<and> has_shutdown cs n \<and>
            err = shutting_down n e \<and>
            all_shut_down cs ctx pre (env w) \<and>
            shutdown_of cs ctx n (run_shutdowns cs ctx pre (env w)) = (Some e, env w') \<and>
            calls w' = calls w @ map (\<lambda>m. ShutdownCall m ctx None) (filter (has_shutdown cs) pre)
                       @ [ShutdownCall n ctx (Some e)]"
          by - (rule exI[of _ "name # pre"], rule exI[of _ n], rule exI[of _ post], rule exI[of _ e])
        with Some show ?thesis by simp
      qed
    qed
  qed
qed

section \<open>CheckHealth polls every checker once\<close>

lemma rangeCheckers_dom:
  "fmdom' (fst (rangeCheckers now hr ctx keys results e)) =
     fmdom' results \<union> (set keys \<inter> fmdom' (checkers hr))"
proof (induction keys arbitrary: results e)
  case Nil
  show ?case by simp
next
  case (Cons k ks)
  show ?case
  proof (cases "fmlookup (checkers hr) k")
    case None
    then have "k \<notin> fmdom' (checkers hr)" by (simp add: fmdom'_notI)
    with None Cons.IH show ?thesis by auto
  next
    case (Some c)
    then have "k \<in> fmdom' (checkers hr)" by (rule fmdom'I)
    with Some Cons.IH show ?thesis by (auto split: prod.splits)
  qed
qed

lemma rangeCheckers_other:
  "name \<notin> set keys \<Longrightarrow>
   fmlookup (fst (rangeCheckers now hr ctx keys results e)) name = fmlookup results name"
proof (induction keys arbitrary: results e)
  case Nil
  show ?case by simp
next
  case (Cons k ks)
  then have "name \<noteq> k" "name \<notin> set ks" by simp_all
  with Cons.IH show ?case by (auto split: option.splits prod.splits)
qed

lemma rangeCheckers_polled:
  assumes "clock_advances now hr ctx"
  shows "distinct keys \<Longrightarrow> name \<in> set keys \<Longrightarrow> fmlookup (checkers hr) name = Some c \<Longrightarrow>
     \<exists>e1 res. now e \<le> now e1 \<and>
        fmlookup (fst (rangeCheckers now hr ctx keys results e)) name = Some res \<and>
        Status res = fst (fst (c ctx e1)) \<and> Error res = snd (fst (c ctx e1)) \<and>
        Time res = now (snd (c ctx e1))"
proof (induction keys arbitrary: results e)
  case Nil
  then show ?case by simp
next
  case (Cons k ks)
  from Cons.prems(1) have d: "distinct ks" and k: "k \<notin> set ks" by simp_all
  show ?case
  proof (cases "name = k")
    case True
    obtain status err e' where call: "c ctx e = ((status, err), e')"
      by (cases "c ctx e") auto
    let ?res = "\<lparr>Status = status, Error = err, Time = now e'\<rparr>"
    from True k have "name \<notin> set ks" by simp
    from rangeCheckers_other[OF this, of now hr ctx "fmupd k ?res results" e'] True Cons.prems(3) call
    have "fmlookup (fst (rangeCheckers now hr ctx (k # ks) results e)) name = Some ?res"
      by simp
    with call show ?thesis
      by - (rule exI[of _ e], rule exI[of _ ?res], simp)
  next
    case False
    with Cons.prems(2) have n: "name \<in> set ks" by simp
    show ?thesis
    proof (cases "fmlookup (checkers hr) k")
      case None
      from Cons.IH[OF d n Cons.prems(3), of e results] None show ?thesis by simp
    next
      case (Some ck)
      obtain status err e' where call: "ck ctx e = ((status, err), e')"
        by (cases "ck ctx e") auto
      from assms Some have "now e \<le> now (snd (ck ctx e))"
        by (auto simp: clock_advances_def fmpred_iff)
      with call have le: "now e \<le> now e'" by simp
      let ?results = "fmupd k \<lparr>Status = status, Error = err, Time = now e'\<rparr> results"
      from Cons.IH[OF d n Cons.prems(3), of e' ?results] obtain e1 res where
        "now e' \<le> now e1"
        "fmlookup (fst (rangeCheckers now hr ctx ks ?results e')) name = Some res"
        "Status res = fst (fst (c ctx e1))" "Error res = snd (fst (c ctx e1))"
        "Time res = now (snd (c ctx e1))"
        by (elim exE conjE) (rule that)
      with le Some call show ?thesis
        by - (rule exI[of _ e1], rule exI[of _ res], simp)
    qed
  qed
qed

section \<open>Example registrations\<close>

text \<open>
  The environment of the examples counts the init actions that succeeded.
\<close>

definition succeed :: "nat \<Rightarrow> error option \<times> nat" where
  "succeed w = (None, Suc w)"

definition fail_with :: "error \<Rightarrow> nat \<Rightarrow> error option \<times> nat" where
  "fail_with e w = (Some e, w)"

definition closing :: "nat Shutdowner" where
  "closing ctx w = (None, w)"

definition make_component ::
  "string \<Rightarrow> string list \<Rightarrow> ('w \<Rightarrow> error option \<times> 'w) \<Rightarrow> 'w Shutdowner option \<Rightarrow> 'w component" where
  "make_component name deps init sd =
     \<lparr>asInitializer = Some \<lparr>Name = name, Dependencies = deps, Init = init\<rparr>, asShutdowner = sd\<rparr>"

definition world\<^sub>0 :: "nat World" where
  "world\<^sub>0 = \<lparr>env = 0, calls = []\<rparr>"

text \<open>A (no dependencies), B (depends on A), C (depends on B), registered as C, B, A.\<close>

definition regs_CBA :: "nat component list" where
  "regs_CBA = [make_component ''C'' [''B''] succeed (Some closing),
               make_component ''B'' [''A''] succeed (Some closing),
               make_component ''A'' [] succeed (Some closing)]"

definition registry_ABC :: "nat Registry" where
  "registry_ABC = fold Register regs_CBA registry"

text \<open>A depends on B and B depends on A.\<close>

definition registry_cycle :: "nat Registry" where
  "registry_cycle = fold Register [make_component ''A'' [''B''] succeed None,
                                   make_component ''B'' [''A''] succeed None] registry"

text \<open>A, B and C as above, with an init of B that fails.\<close>

definition registry_B_fails :: "nat Registry" where
  "registry_B_fails =
     fold Register [make_component ''C'' [''B''] succeed (Some closing),
                    make_component ''B'' [''A''] (fail_with ''boom'') (Some closing),
                    make_component ''A'' [] succeed (Some closing)] registry"


text \<open>A alone, with an init that fails.\<close>

definition registry_A_fails :: "nat Registry" where
  "registry_A_fails = Register (make_component ''A'' [] (fail_with ''boom'') None) registry"

definition failing_close :: "error \<Rightarrow> nat Shutdowner" where
  "failing_close e ctx w = (Some e, w)"

text \<open>
  A, B, C and D after a successful \<^verbatim>\<open>Initialize\<close>: each depends on the one before,
  the \<^verbatim>\<open>Shutdown\<close> of B fails, D has no \<^verbatim>\<open>Shutdown\<close> method, and one hook is
  registered.
\<close>

definition registry_up :: "nat Registry" where
  "registry_up =
     (RegisterShutdownHook closing
       (fold Register [make_component ''A'' [] succeed (Some closing),
                       make_component ''B'' [''A''] succeed (Some (failing_close ''busy'')),
                       make_component ''C'' [''B''] succeed (Some closing),
                       make_component ''D'' [''C''] succeed None] registry))
     \<lparr>initialized := {''A'', ''B'', ''C'', ''D''}, initOrder := [''A'', ''B'', ''C'', ''D'']\<rparr>"

text \<open>No component and three hooks, the second of which fails.\<close>

definition registry_hooks :: "nat Registry" where
  "registry_hooks =
     RegisterShutdownHook closing
       (RegisterShutdownHook (failing_close ''hook failed'')
         (RegisterShutdownHook closing registry))"

text \<open>
  Two checkers on an environment that is the clock itself: polling "mysql" takes two
  ticks and finds it healthy, polling "network_manager" takes one and finds it unhealthy.
\<close>

definition health_example :: "nat HealthRegistry" where
  "health_example =
     RegisterHealthCheck ''network_manager'' (\<lambda>ctx e. ((HealthUnhealthy, Some ''unreachable''), e + 1))
       (RegisterHealthCheck ''mysql'' (\<lambda>ctx e. ((HealthHealthy, None), e + 2)) healthRegistry)"

definition fail_after :: "error \<Rightarrow> nat \<Rightarrow> error option \<times> nat" where
  "fail_after e w = (if w = 0 then (None, w) else (Some e, w))"

text \<open>
  A, B and C as above; the init of B fails once another init has run, as the init of A
  has when B is reached.
\<close>

definition registry_B_rejects :: "nat Registry" where
  "registry_B_rejects =
     fold Register [make_component ''C'' [''B''] succeed (Some closing),
                    make_component ''B'' [''A''] (fail_after ''boom'') (Some closing),
                    make_component ''A'' [] succeed (Some closing)] registry"

definition closing_counted :: "nat Shutdowner" where
  "closing_counted ctx w = (None, Suc w)"

definition close_fails_after :: "error \<Rightarrow> nat Shutdowner" where
  "close_fails_after e ctx w = (if w = 0 then (None, w) else (Some e, w))"

text \<open>
  A, B, C and D after a successful \<^verbatim>\<open>Initialize\<close>. The \<^verbatim>\<open>Shutdown\<close> of C counts in
  the environment, that of B fails once another has counted, D has no \<^verbatim>\<open>Shutdown\<close>
  method.
\<close>

definition registry_teardown :: "nat Registry" where
  "registry_teardown =
     (fold Register [make_component ''A'' [] succeed (Some closing),
                     make_component ''B'' [''A''] succeed (Some (close_fails_after ''busy'')),
                     make_component ''C'' [''B''] succeed (Some closing_counted),
                     make_component ''D'' [''C''] succeed None] registry)
     \<lparr>initialized := {''A'', ''B'', ''C'', ''D''}, initOrder := [''A'', ''B'', ''C'', ''D'']\<rparr>"

lemma sorted_list_of_fset_empty: "sorted_list_of_fset {||} = []"
  by (simp add: sorted_list_of_fset.rep_eq)

lemma sorted_list_of_fset_finsert:
  "sorted_list_of_fset (finsert x A) = insort x (remove1 x (sorted_list_of_fset A))"
  by (simp add: sorted_list_of_fset.rep_eq sorted_list_of_set_remove)

lemmas eval_registry =
  Register_def make_component_def registry_def
  sorted_list_of_fset_finsert sorted_list_of_fset_empty

lemma components_ABC:
  "components registry_ABC =
     fmupd ''A'' (make_component ''A'' [] succeed (Some closing))
       (fmupd ''B'' (make_component ''B'' [''A''] succeed (Some closing))
         (fmupd ''C'' (make_component ''C'' [''B''] succeed (Some closing)) fmempty))"
  by (simp add: registry_ABC_def regs_CBA_def Register_def registry_def make_component_def)

lemma names_ABC: "sorted_list_of_fset (fmdom (components registry_ABC)) = [''A'', ''B'', ''C'']"
  by (simp add: components_ABC eval_registry)

lemma topologicalSort_ABC: "topologicalSort registry_ABC = Inr [''A'', ''B'', ''C'']"
  unfolding topologicalSort_def names_ABC
  by (simp add: components_ABC make_component_def visit.simps)

lemma closed_ABC: "set (deps_of (components registry_ABC) n) \<subseteq> fmdom' (components registry_ABC)"
  by (simp add: components_ABC deps_of_def make_component_def)

section \<open>Claims about the order\<close>

text \<open>
  Claim C1. When the dependencies declared by the registered components are themselves
  registered and form no cycle, \<^verbatim>\<open>topologicalSort\<close> returns an order that lists every
  registered name exactly once, with every dependency of a component strictly before
  the component. The order is a function of the stored components alone: computing it
  again gives the same list, and so does registering the same components in any other
  sequence.
\<close>

theorem topologicalSort_dependency_order:
  assumes "acyclic (dep_rel (components r))"
    and "\<forall>n. set (deps_of (components r) n) \<subseteq> fmdom' (components r)"
  shows "\<exists>ord. topologicalSort r = Inr ord \<and> distinct ord \<and> set ord = fmdom' (components r) \<and>
           (\<forall>n \<in> fmdom' (components r). \<forall>d \<in> set (deps_of (components r) n). before_in ord d n) \<and>
           (\<forall>r'. components r' = components r \<longrightarrow> topologicalSort r' = Inr ord) \<and>
           (\<forall>regs regs' r\<^sub>0.
               r = fold Register regs r\<^sub>0 \<and> mset regs' = mset regs \<and>
               (\<forall>a \<in> set regs. \<forall>b \<in> set regs. a = b \<or> key_of a \<noteq> key_of b \<or> key_of a = None)
               \<longrightarrow> topologicalSort (fold Register regs' r\<^sub>0) = Inr ord)"
proof -
  from assms(1) obtain ord where ord: "topologicalSort r = Inr ord"
    by (rule topologicalSort_acyclic)
  note props = topologicalSort_Inr[OF ord]
  from assms(2) have "declared (components r) = fmdom' (components r)"
    by (auto simp: declared_def)
  with props(2) have "set ord = fmdom' (components r)" by simp
  moreover have "\<forall>n \<in> fmdom' (components r). \<forall>d \<in> set (deps_of (components r) n). before_in ord d n"
    using props(3) by blast
  moreover have "\<forall>r'. components r' = components r \<longrightarrow> topologicalSort r' = Inr ord"
    using ord topologicalSort_components by metis
  moreover have "topologicalSort (fold Register regs' r\<^sub>0) = Inr ord"
    if "r = fold Register regs r\<^sub>0" "mset regs' = mset regs"
      "\<forall>a \<in> set regs. \<forall>b \<in> set regs. a = b \<or> key_of a \<noteq> key_of b \<or> key_of a = None"
    for regs regs' r\<^sub>0
  proof -
    have "fold Register regs r\<^sub>0 = fold Register regs' r\<^sub>0"
      by (rule fold_Register_perm) (use that in auto)
    with that(1) ord show ?thesis by simp
  qed
  ultimately show ?thesis using ord props(1) by blast
qed

theorem topologicalSort_dependency_order_witness:
  "acyclic (dep_rel (components registry_ABC)) \<and>
   (\<forall>n. set (deps_of (components registry_ABC) n) \<subseteq> fmdom' (components registry_ABC)) \<and>
   topologicalSort (fold Register regs_CBA registry) = Inr [''A'', ''B'', ''C''] \<and>
   topologicalSort (fold Register (rev regs_CBA) registry) = Inr [''A'', ''B'', ''C''] \<and>
   before_in [''A'', ''B'', ''C''] ''A'' ''B'' \<and> before_in [''A'', ''B'', ''C''] ''B'' ''C''"
proof -
  have ac: "acyclic (dep_rel (components registry_ABC))"
    by (rule topologicalSort_Inr(4)[OF topologicalSort_ABC])
  have cl: "\<forall>n. set (deps_of (components registry_ABC) n) \<subseteq> fmdom' (components registry_ABC)"
    by (simp add: closed_ABC)
  from topologicalSort_dependency_order[OF ac cl] obtain ord where
    ord: "topologicalSort registry_ABC = Inr ord"
    and perm: "\<forall>regs regs' r\<^sub>0.
               registry_ABC = fold Register regs r\<^sub>0 \<and> mset regs' = mset regs \<and>
               (\<forall>a \<in> set regs. \<forall>b \<in> set regs. a = b \<or> key_of a \<noteq> key_of b \<or> key_of a = None)
               \<longrightarrow> topologicalSort (fold Register regs' r\<^sub>0) = Inr ord"
    by (elim exE conjE) (rule that)
  from ord topologicalSort_ABC have o: "ord = [''A'', ''B'', ''C'']" by simp
  have keys: "\<forall>a \<in> set regs_CBA. \<forall>b \<in> set regs_CBA. a = b \<or> key_of a \<noteq> key_of b \<or> key_of a = None"
    by (simp add: regs_CBA_def key_of_def make_component_def)
  have "topologicalSort (fold Register (rev regs_CBA) registry) = Inr ord"
    using perm[rule_format, of regs_CBA registry "rev regs_CBA"] keys
    by (simp add: registry_ABC_def)
  with o ac cl topologicalSort_ABC show ?thesis by (simp add: registry_ABC_def)
qed

lemma components_cycle:
  "components registry_cycle =
     fmupd ''B'' (make_component ''B'' [''A''] succeed None)
       (fmupd ''A'' (make_component ''A'' [''B''] succeed None) fmempty)"
  by (simp add: registry_cycle_def Register_def registry_def make_component_def)

lemma names_cycle: "sorted_list_of_fset (fmdom (components registry_cycle)) = [''A'', ''B'']"
  by (simp add: components_cycle eval_registry)

lemma topologicalSort_cycle: "topologicalSort registry_cycle = Inl (circular ''A'')"
  unfolding topologicalSort_def names_cycle
  by (simp add: components_cycle make_component_def visit.simps)

lemma circular_inject: "circular m = circular n \<longleftrightarrow> m = n"
  by (simp add: circular_def)

text \<open>
  Claim C3. When the dependency graph of the registered components has a cycle,
  \<^verbatim>\<open>topologicalSort\<close> fails with "circular dependency detected involving m" for a name
  \<open>m\<close> that lies on a cycle, and \<^verbatim>\<open>Initialize\<close> returns that same error with the
  registry and the world untouched: no init action has been called.
\<close>

theorem cycle_is_reported:
  assumes "\<not> acyclic (dep_rel (components r))"
  shows "\<exists>m. (m, m) \<in> (dep_rel (components r))\<^sup>+ \<and>
             topologicalSort r = Inl (circular m) \<and>
             (\<forall>fuel w. Initialize fuel r w = Some (Some (circular m), r, w))"
proof (cases "topologicalSort r")
  case (Inr ord)
  from topologicalSort_Inr(4)[OF Inr] assms show ?thesis by contradiction
next
  case (Inl e)
  from topologicalSort_Inl[OF Inl] obtain m where m: "e = circular m"
    and cyc: "(m, m) \<in> (dep_rel (components r))\<^sup>+" by blast
  from Inl m have "Initialize fuel r w = Some (Some (circular m), r, w)" for fuel and w :: "'a World"
    by (simp add: Initialize_cycle)
  with Inl m cyc show ?thesis by blast
qed

theorem cycle_is_reported_witness:
  "\<not> acyclic (dep_rel (components registry_cycle)) \<and>
   topologicalSort registry_cycle = Inl ''circular dependency detected involving A'' \<and>
   Initialize 1 registry_cycle world\<^sub>0 =
     Some (Some ''circular dependency detected involving A'', registry_cycle, world\<^sub>0) \<and>
   (''A'', ''A'') \<in> (dep_rel (components registry_cycle))\<^sup>+"
proof -
  have nac: "\<not> acyclic (dep_rel (components registry_cycle))"
    using topologicalSort_Inl[OF topologicalSort_cycle] by (auto simp: acyclic_def)
  from cycle_is_reported[OF nac] obtain m where
    cyc: "(m, m) \<in> (dep_rel (components registry_cycle))\<^sup>+"
    and e: "topologicalSort registry_cycle = Inl (circular m)"
    and i: "\<forall>fuel w. Initialize fuel registry_cycle w = Some (Some (circular m), registry_cycle, w)"
    by (elim exE conjE) (rule that)
  from e topologicalSort_cycle have "m = ''A''" by (simp add: circular_inject)
  with nac cyc e i show ?thesis by (simp add: circular_def)
qed

section \<open>Claims about Initialize\<close>

lemma components_B_fails:
  "components registry_B_fails =
     fmupd ''A'' (make_component ''A'' [] succeed (Some closing))
       (fmupd ''B'' (make_component ''B'' [''A''] (fail_with ''boom'') (Some closing))
         (fmupd ''C'' (make_component ''C'' [''B''] succeed (Some closing)) fmempty))"
    and initialized_B_fails: "initialized registry_B_fails = {}"
  by (simp_all add: registry_B_fails_def Register_def registry_def make_component_def)

lemma names_B_fails: "sorted_list_of_fset (fmdom (components registry_B_fails)) = [''A'', ''B'', ''C'']"
  by (simp add: components_B_fails eval_registry)

lemma topologicalSort_B_fails: "topologicalSort registry_B_fails = Inr [''A'', ''B'', ''C'']"
  unfolding topologicalSort_def names_B_fails
  by (simp add: components_B_fails make_component_def visit.simps)

lemma Initialize_B_fails:
  "Initialize (Suc 0) registry_B_fails world\<^sub>0 =
     Some (Some ''initializing B: boom'',
           registry_B_fails\<lparr>initialized := {''A''}, initOrder := [''A'', ''B'', ''C'']\<rparr>,
           \<lparr>env = 1, calls = [InitCall ''A'' None, InitCall ''B'' (Some ''boom'')]\<rparr>)"
  unfolding Initialize_def topologicalSort_B_fails
  by (simp add: components_B_fails initialized_B_fails make_component_def world\<^sub>0_def
        succeed_def fail_with_def initializing_def)

lemma components_B_rejects:
  "components registry_B_rejects =
     fmupd ''A'' (make_component ''A'' [] succeed (Some closing))
       (fmupd ''B'' (make_component ''B'' [''A''] (fail_after ''boom'') (Some closing))
         (fmupd ''C'' (make_component ''C'' [''B''] succeed (Some closing)) fmempty))"
    and initialized_B_rejects: "initialized registry_B_rejects = {}"
  by (simp_all add: registry_B_rejects_def Register_def registry_def make_component_def)

lemma names_B_rejects: "sorted_list_of_fset (fmdom (components registry_B_rejects)) = [''A'', ''B'', ''C'']"
  by (simp add: components_B_rejects eval_registry)

lemma topologicalSort_B_rejects: "topologicalSort registry_B_rejects = Inr [''A'', ''B'', ''C'']"
  unfolding topologicalSort_def names_B_rejects
  by (simp add: components_B_rejects make_component_def visit.simps)

lemma Initialize_B_rejects:
  "Initialize (Suc 0) registry_B_rejects world\<^sub>0 =
     Some (Some ''initializing B: boom'',
           registry_B_rejects\<lparr>initialized := {''A''}, initOrder := [''A'', ''B'', ''C'']\<rparr>,
           \<lparr>env = 1, calls = [InitCall ''A'' None, InitCall ''B'' (Some ''boom'')]\<rparr>)"
  unfolding Initialize_def topologicalSort_B_rejects
  by (simp add: components_B_rejects initialized_B_rejects make_component_def world\<^sub>0_def
        succeed_def fail_after_def initializing_def)

text \<open>
  Claim C4. On a fresh registry whose components all declare registered dependencies
  without a cycle, \<^verbatim>\<open>Initialize\<close> returns for every recursion bound of at least one,
  and what it returns is fixed by the init actions run one after the other in the order,
  each on the environment the previous ones left. It returns \<^verbatim>\<open>nil\<close> exactly when
  each of them returns \<^verbatim>\<open>nil\<close>; every init has then been called once, in the order.
  Otherwise let \<open>n\<close> be the first name whose init returns an error \<open>e\<close>: the calls
  made are the inits of the names before \<open>n\<close> in the order, each succeeding, then the
  init of \<open>n\<close>; nothing after it is called, the error returned is "initializing n: e",
  the environment is the one the failing init left, and the names before \<open>n\<close> stay
  marked initialized.
\<close>

theorem Initialize_stops_at_failing_init:
  assumes "acyclic (dep_rel (components r))"
    and "\<forall>n. set (deps_of (components r) n) \<subseteq> fmdom' (components r)"
    and "all_Initializers (components r)"
    and "initialized r = {}"
  shows "\<exists>ord. topologicalSort r = Inr ord \<and>
           (\<forall>fuel. \<exists>res r' w'.
              Initialize (Suc fuel) r w = Some (res, r', w') \<and>
              components r' = components r \<and> initOrder r' = ord \<and>
              (case res of
                 None \<Rightarrow>
                   all_succeed (components r) ord (env w) \<and>
                   env w' = run_inits (components r) ord (env w) \<and>
                   initialized r' = set ord \<and>
                   calls w' = calls w @ map (\<lambda>n. InitCall n None) ord
               | Some err \<Rightarrow>
                   \<exists>pre n post e.
                     ord = pre @ n # post \<and> err = initializing n e \<and>
                     all_succeed (components r) pre (env w) \<and>
                     init_of (components r) n (run_inits (components r) pre (env w)) = (Some e, env w') \<and>
                     calls w' = calls w @ map (\<lambda>m. InitCall m None) pre @ [InitCall n (Some e)] \<and>
                     initialized r' = set pre))"
proof -
  from assms(1) obtain ord where ord: "topologicalSort r = Inr ord"
    by (rule topologicalSort_acyclic)
  note props = topologicalSort_Inr[OF ord]
  from assms(2) props(2) have reg: "set ord = fmdom' (components r)"
    by (auto simp: declared_def)
  let ?r1 = "r\<lparr>initOrder := ord\<rparr>"
  have "\<exists>res r' w'.
          Initialize (Suc fuel) r w = Some (res, r', w') \<and>
          components r' = components r \<and> initOrder r' = ord \<and>
          (case res of
             None \<Rightarrow>
               all_succeed (components r) ord (env w) \<and>
               env w' = run_inits (components r) ord (env w) \<and>
               initialized r' = set ord \<and>
               calls w' = calls w @ map (\<lambda>n. InitCall n None) ord
           | Some err \<Rightarrow>
               \<exists>pre n post e.
                 ord = pre @ n # post \<and> err = initializing n e \<and>
                 all_succeed (components r) pre (env w) \<and>
                 init_of (components r) n (run_inits (components r) pre (env w)) = (Some e, env w') \<and>
                 calls w' = calls w @ map (\<lambda>m. InitCall m None) pre @ [InitCall n (Some e)] \<and>
                 initialized r' = set pre)" for fuel
  proof -
    obtain res r' w' where wk: "walk ord ?r1 w = (res, r', w')" by (cases "walk ord ?r1 w")
    from Initialize_walk[OF ord] wk have ini: "Initialize (Suc fuel) r w = Some (res, r', w')"
      by simp
    from walk_frame[OF wk] have fr: "components r' = components r" "initOrder r' = ord" by simp_all
    have pre: "all_Initializers (components ?r1)" "set ord \<subseteq> fmdom' (components ?r1)"
      "set ord \<inter> initialized ?r1 = {}"
      using assms(3,4) reg by simp_all
    from walk_fresh[OF pre(1,2) props(1) pre(3) wk] assms(4)
    have "case res of
             None \<Rightarrow>
               all_succeed (components r) ord (env w) \<and>
               env w' = run_inits (components r) ord (env w) \<and>
               initialized r' = set ord \<and>
               calls w' = calls w @ map (\<lambda>n. InitCall n None) ord
           | Some err \<Rightarrow>
               \<exists>pre n post e.
                 ord = pre @ n # post \<and> err = initializing n e \<and>
                 all_succeed (components r) pre (env w) \<and>
                 init_of (components r) n (run_inits (components r) pre (env w)) = (Some e, env w') \<and>
                 calls w' = calls w @ map (\<lambda>m. InitCall m None) pre @ [InitCall n (Some e)] \<and>
                 initialized r' = set pre"
      by (cases res) simp_all
    with ini fr show ?thesis
      by - (rule exI[of _ res], rule exI[of _ r'], rule exI[of _ w'], intro conjI)
  qed
  with ord show ?thesis by - (rule exI[of _ ord], intro conjI allI)
qed

theorem Initialize_stops_at_failing_init_witness:
  "acyclic (dep_rel (components registry_B_rejects)) \<and>
   (\<forall>n. set (deps_of (components registry_B_rejects) n) \<subseteq> fmdom' (components registry_B_rejects)) \<and>
   all_Initializers (components registry_B_rejects) \<and>
   initialized registry_B_rejects = {} \<and>
   topologicalSort registry_B_rejects = Inr [''A'', ''B'', ''C''] \<and>
   all_succeed (components registry_B_rejects) [''A''] (env world\<^sub>0) \<and>
   init_of (components registry_B_rejects) ''B''
       (run_inits (components registry_B_rejects) [''A''] (env world\<^sub>0)) = (Some ''boom'', 1) \<and>
   (\<exists>r' w'. Initialize 1 registry_B_rejects world\<^sub>0 = Some (Some ''initializing B: boom'', r', w') \<and>
      components r' = components registry_B_rejects \<and> initOrder r' = [''A'', ''B'', ''C''] \<and>
      env w' = 1 \<and>
      calls w' = [InitCall ''A'' None, InitCall ''B'' (Some ''boom'')] \<and>
      initialized r' = {''A''})"
proof -
  have ac: "acyclic (dep_rel (components registry_B_rejects))"
    by (rule topologicalSort_Inr(4)[OF topologicalSort_B_rejects])
  have cl: "\<forall>n. set (deps_of (components registry_B_rejects) n) \<subseteq> fmdom' (components registry_B_rejects)"
    by (simp add: components_B_rejects deps_of_def make_component_def)
  have ai: "all_Initializers (components registry_B_rejects)"
    by (simp add: all_Initializers_def components_B_rejects make_component_def fmpred_iff)
  have a: "all_succeed (components registry_B_rejects) [''A''] (env world\<^sub>0)"
    by (simp add: components_B_rejects init_of_def make_component_def succeed_def world\<^sub>0_def)
  have b: "init_of (components registry_B_rejects) ''B''
       (run_inits (components registry_B_rejects) [''A''] (env world\<^sub>0)) = (Some ''boom'', 1)"
    by (simp add: components_B_rejects init_of_def make_component_def succeed_def fail_after_def
          world\<^sub>0_def)
  from Initialize_stops_at_failing_init[OF ac cl ai initialized_B_rejects, of world\<^sub>0]
  obtain ord where ord: "topologicalSort registry_B_rejects = Inr ord"
    and run: "\<forall>fuel. \<exists>res r' w'.
              Initialize (Suc fuel) registry_B_rejects world\<^sub>0 = Some (res, r', w') \<and>
              components r' = components registry_B_rejects \<and> initOrder r' = ord \<and>
              (case res of
                 None \<Rightarrow>
                   all_succeed (components registry_B_rejects) ord (env world\<^sub>0) \<and>
                   env w' = run_inits (components registry_B_rejects) ord (env world\<^sub>0) \<and>
                   initialized r' = set ord \<and>
                   calls w' = calls world\<^sub>0 @ map (\<lambda>n. InitCall n None) ord
               | Some err \<Rightarrow>
                   \<exists>pre n post e.
                     ord = pre @ n # post \<and> err = initializing n e \<and>
                     all_succeed (components registry_B_rejects) pre (env world\<^sub>0) \<and>
                     init_of (components registry_B_rejects) n
                       (run_inits (components registry_B_rejects) pre (env world\<^sub>0)) = (Some e, env w') \<and>
                     calls w' = calls world\<^sub>0 @ map (\<lambda>m. InitCall m None) pre @ [InitCall n (Some e)] \<and>
                     initialized r' = set pre)"
    by (elim exE conjE) (rule that)
  from ord topologicalSort_B_rejects have o: "ord = [''A'', ''B'', ''C'']" by simp
  from run[rule_format, of 0] obtain res r' w' where
    i: "Initialize (Suc 0) registry_B_rejects world\<^sub>0 = Some (res, r', w')"
    and c: "components r' = components registry_B_rejects" and io: "initOrder r' = ord"
    by (elim exE conjE) (rule that)
  from i Initialize_B_rejects have
    "res = Some ''initializing B: boom''" "env w' = 1"
    "calls w' = [InitCall ''A'' None, InitCall ''B'' (Some ''boom'')]"
    "initialized r' = {''A''}"
    by auto
  with i c io o have
    "\<exists>r' w'. Initialize 1 registry_B_rejects world\<^sub>0 = Some (Some ''initializing B: boom'', r', w') \<and>
      components r' = components registry_B_rejects \<and> initOrder r' = [''A'', ''B'', ''C''] \<and>
      env w' = 1 \<and>
      calls w' = [InitCall ''A'' None, InitCall ''B'' (Some ''boom'')] \<and>
      initialized r' = {''A''}"
    by - (rule exI[of _ r'], rule exI[of _ w'], simp)
  with ac cl ai initialized_B_rejects topologicalSort_B_rejects a b show ?thesis by simp
qed







lemma components_A_fails:
  "components registry_A_fails = fmupd ''A'' (make_component ''A'' [] (fail_with ''boom'') None) fmempty"
    and initialized_A_fails: "initialized registry_A_fails = {}"
  by (simp_all add: registry_A_fails_def Register_def registry_def make_component_def)

lemma topologicalSort_A_fails: "topologicalSort registry_A_fails = Inr [''A'']"
  unfolding topologicalSort_def
  by (simp add: components_A_fails eval_registry visit.simps)

lemma Initialize_A_fails:
  "Initialize (Suc 0) registry_A_fails w =
     Some (Some ''initializing A: boom'', registry_A_fails\<lparr>initOrder := [''A'']\<rparr>,
           w\<lparr>calls := calls w @ [InitCall ''A'' (Some ''boom'')]\<rparr>)"
  unfolding Initialize_def topologicalSort_A_fails
  by (simp add: components_A_fails initialized_A_fails make_component_def fail_with_def
        initializing_def)

lemma topologicalSort_initOrder [simp]:
  "topologicalSort (r\<lparr>initOrder := xs\<rparr>) = topologicalSort r"
  by (simp add: topologicalSort_def)

lemma Initialize_A_fails_again:
  "Initialize (Suc 0) (registry_A_fails\<lparr>initOrder := [''A'']\<rparr>) w =
     Some (Some ''initializing A: boom'', registry_A_fails\<lparr>initOrder := [''A'']\<rparr>,
           w\<lparr>calls := calls w @ [InitCall ''A'' (Some ''boom'')]\<rparr>)"
  unfolding Initialize_def topologicalSort_initOrder topologicalSort_A_fails
  by (simp add: components_A_fails initialized_A_fails make_component_def fail_with_def
        initializing_def)

text \<open>
  Claim C6 says that no init is ever invoked twice across a sequence of
  \<^verbatim>\<open>Initialize\<close> calls. A name is marked initialized only after its init returned
  \<^verbatim>\<open>nil\<close>, so an init that failed is called again by the next \<^verbatim>\<open>Initialize\<close>: here
  the failing init of A is called by each of two calls.
\<close>

theorem failed_init_is_retried_counterexample:
  "Initialize_times (Suc 0) (Suc (Suc 0)) registry_A_fails world\<^sub>0 =
     Some (registry_A_fails\<lparr>initOrder := [''A'']\<rparr>,
           \<lparr>env = 0, calls = [InitCall ''A'' (Some ''boom''), InitCall ''A'' (Some ''boom'')]\<rparr>)"
  by (simp add: Initialize_A_fails Initialize_A_fails_again world\<^sub>0_def)

lemma Initialize_ABC:
  "Initialize (Suc 0) registry_ABC world\<^sub>0 =
     Some (None, registry_ABC\<lparr>initialized := {''A'', ''B'', ''C''}, initOrder := [''A'', ''B'', ''C'']\<rparr>,
           \<lparr>env = 3, calls = [InitCall ''A'' None, InitCall ''B'' None, InitCall ''C'' None]\<rparr>)"
proof -
  have i: "initialized registry_ABC = {}"
    by (simp add: registry_ABC_def regs_CBA_def Register_def registry_def make_component_def)
  show ?thesis
    unfolding Initialize_def topologicalSort_ABC
    by (simp add: components_ABC i make_component_def world\<^sub>0_def succeed_def insert_commute
          eval_nat_numeral)
qed

text \<open>
  Claim C6, as the code has it. A second \<^verbatim>\<open>Initialize\<close> after one that returned
  \<^verbatim>\<open>nil\<close> returns \<^verbatim>\<open>nil\<close> and leaves the registry and the world as they were: it
  calls no init. Across any number of \<^verbatim>\<open>Initialize\<close> calls, starting where every
  recorded successful init is marked initialized (as with no call recorded yet), every
  call returns and no init is called for a name after an init for that name has
  succeeded; an init that failed may be called again.
\<close>

theorem Initialize_never_repeats_a_successful_init:
  "(Initialize (Suc fuel) r w = Some (None, r1, w1) \<longrightarrow>
      Initialize (Suc fuel') r1 w1 = Some (None, r1, w1)) \<and>
   (once_only r w \<longrightarrow>
      (\<exists>r' w'. Initialize_times (Suc fuel) k r w = Some (r', w') \<and> once_only r' w'))"
  using Initialize_again[of fuel r w r1 w1 fuel'] Initialize_times_once_only[of r w fuel k]
  by blast

theorem Initialize_never_repeats_a_successful_init_witness:
  "Initialize (Suc 0) registry_ABC world\<^sub>0 =
     Some (None, registry_ABC\<lparr>initialized := {''A'', ''B'', ''C''}, initOrder := [''A'', ''B'', ''C'']\<rparr>,
           \<lparr>env = 3, calls = [InitCall ''A'' None, InitCall ''B'' None, InitCall ''C'' None]\<rparr>) \<and>
   Initialize (Suc 0)
       (registry_ABC\<lparr>initialized := {''A'', ''B'', ''C''}, initOrder := [''A'', ''B'', ''C'']\<rparr>)
       \<lparr>env = 3, calls = [InitCall ''A'' None, InitCall ''B'' None, InitCall ''C'' None]\<rparr> =
     Some (None, registry_ABC\<lparr>initialized := {''A'', ''B'', ''C''}, initOrder := [''A'', ''B'', ''C'']\<rparr>,
           \<lparr>env = 3, calls = [InitCall ''A'' None, InitCall ''B'' None, InitCall ''C'' None]\<rparr>) \<and>
   once_only registry_ABC world\<^sub>0 \<and>
   (\<exists>r' w'. Initialize_times (Suc 0) (Suc (Suc 0)) registry_ABC world\<^sub>0 = Some (r', w') \<and>
            once_only r' w')"
proof -
  have o: "once_only registry_ABC world\<^sub>0"
    by (simp add: once_only_def world\<^sub>0_def)
  note inst = Initialize_never_repeats_a_successful_init
    [of 0 registry_ABC world\<^sub>0
        "registry_ABC\<lparr>initialized := {''A'', ''B'', ''C''}, initOrder := [''A'', ''B'', ''C'']\<rparr>"
        "\<lparr>env = 3, calls = [InitCall ''A'' None, InitCall ''B'' None, InitCall ''C'' None]\<rparr>"
        0 "Suc (Suc 0)"]
  note again = inst[THEN conjunct1, rule_format, OF Initialize_ABC]
  note twice = inst[THEN conjunct2, rule_format, OF o]
  show ?thesis by (intro conjI Initialize_ABC again o twice)
qed

section \<open>Claims about Shutdown\<close>

lemma has_shutdown_up:
  "has_shutdown (components registry_up) n \<longleftrightarrow> n = ''A'' \<or> n = ''B'' \<or> n = ''C''"
  by (auto simp: has_shutdown_def registry_up_def RegisterShutdownHook_def Register_def
        registry_def make_component_def)

lemma Shutdown_up:
  "Shutdown registry_up ctx world\<^sub>0 =
     (Some ''shutting down B: busy'',
      \<lparr>env = 0, calls = [ShutdownCall ''C'' ctx None, ShutdownCall ''B'' ctx (Some ''busy'')]\<rparr>)"
  by (simp add: Shutdown_def registry_up_def RegisterShutdownHook_def Register_def registry_def
        make_component_def world\<^sub>0_def closing_def failing_close_def shutting_down_def
        eval_nat_numeral Let_def)

lemma Shutdown_hooks:
  "Shutdown registry_hooks ctx world\<^sub>0 =
     (Some ''hook failed'',
      \<lparr>env = 0, calls = [HookCall 0 ctx None, HookCall 1 ctx (Some ''hook failed'')]\<rparr>)"
  by (simp add: Shutdown_def registry_hooks_def RegisterShutdownHook_def registry_def
        world\<^sub>0_def closing_def failing_close_def)

lemma components_teardown:
  "components registry_teardown =
     fmupd ''D'' (make_component ''D'' [''C''] succeed None)
       (fmupd ''C'' (make_component ''C'' [''B''] succeed (Some closing_counted))
         (fmupd ''B'' (make_component ''B'' [''A''] succeed (Some (close_fails_after ''busy'')))
           (fmupd ''A'' (make_component ''A'' [] succeed (Some closing)) fmempty)))"
  by (simp add: registry_teardown_def Register_def registry_def make_component_def)

lemma Shutdown_teardown:
  "Shutdown registry_teardown ctx world\<^sub>0 =
     (Some ''shutting down B: busy'',
      \<lparr>env = 1, calls = [ShutdownCall ''C'' ctx None, ShutdownCall ''B'' ctx (Some ''busy'')]\<rparr>)"
  by (simp add: Shutdown_def registry_teardown_def Register_def registry_def
        make_component_def world\<^sub>0_def closing_counted_def close_fails_after_def shutting_down_def
        eval_nat_numeral Let_def)

text \<open>
  Claim C5. \<^verbatim>\<open>Shutdown\<close> reads \<^verbatim>\<open>initOrder\<close> from its last name to its first. A name
  whose component has a \<^verbatim>\<open>Shutdown\<close> method has it called with the context that
  \<^verbatim>\<open>Shutdown\<close> was given, on the environment the calls before it left; any other name
  is passed over without an error. What \<^verbatim>\<open>Shutdown\<close> returns is fixed by these
  methods run one after the other in that reverse order. If one of them returns an error,
  let \<open>n\<close> be the first that does, with error \<open>e\<close>: the calls made are those for the
  names read before \<open>n\<close>, each succeeding, then the call for \<open>n\<close>; nothing else is
  called (no name earlier in \<^verbatim>\<open>initOrder\<close>, no hook), the error returned is
  "shutting down n: e" and the environment is the one the failing call left. Otherwise
  every name with the method has been called, in reverse order, and the hooks run on the
  environment these calls left.
\<close>

theorem Shutdown_walks_initOrder_in_reverse:
  "\<exists>res w'. Shutdown r ctx w = (res, w') \<and>
     ((\<exists>pre n post e.
         rev (initOrder r) = pre @ n # post \<and> has_shutdown (components r) n \<and>
         all_shut_down (components r) ctx pre (env w) \<and>
         shutdown_of (components r) ctx n (run_shutdowns (components r) ctx pre (env w)) = (Some e, env w') \<and>
         res = Some (shutting_down n e) \<and>
         calls w' = calls w @ map (\<lambda>m. ShutdownCall m ctx None) (filter (has_shutdown (components r)) pre)
                      @ [ShutdownCall n ctx (Some e)])
    \<or> (all_shut_down (components r) ctx (rev (initOrder r)) (env w) \<and>
       (\<exists>w1 j.
         shutdownLoop r ctx (length (initOrder r)) w = (None, w1) \<and>
         env w1 = run_shutdowns (components r) ctx (rev (initOrder r)) (env w) \<and>
         (res, w') = runHooks ctx 0 (shutdownHooks r) w1 \<and>
         j \<le> length (shutdownHooks r) \<and>
         calls w' = calls w
            @ map (\<lambda>m. ShutdownCall m ctx None) (filter (has_shutdown (components r)) (rev (initOrder r)))
            @ map (\<lambda>i. HookCall i ctx None) [0..<j]
            @ (case res of None \<Rightarrow> [] | Some e \<Rightarrow> [HookCall j ctx (Some e)]))))"
proof -
  let ?cs = "components r"
  obtain res1 w1 where walk: "shutdownNames ?cs ctx (rev (initOrder r)) w = (res1, w1)"
    by (cases "shutdownNames ?cs ctx (rev (initOrder r)) w")
  then have loop: "shutdownLoop r ctx (length (initOrder r)) w = (res1, w1)"
    by (simp add: shutdownLoop_names)
  note w1 = shutdownNames_result[OF walk]
  note t1 = shutdownNames_threaded[OF walk]
  show ?thesis
  proof (cases res1)
    case (Some err)
    with walk have sd: "Shutdown r ctx w = (Some err, w1)" by (simp add: Shutdown_names)
    from t1[unfolded Some option.case] obtain pre n post e where
      "rev (initOrder r) = pre @ n # post \<and> has_shutdown ?cs n \<and>
         all_shut_down ?cs ctx pre (env w) \<and>
         shutdown_of ?cs ctx n (run_shutdowns ?cs ctx pre (env w)) = (Some e, env w1) \<and>
         Some err = Some (shutting_down n e) \<and>
         calls w1 = calls w @ map (\<lambda>m. ShutdownCall m ctx None) (filter (has_shutdown ?cs) pre)
                      @ [ShutdownCall n ctx (Some e)]"
      by (elim exE conjE) simp
    then have "\<exists>pre n post e.
         rev (initOrder r) = pre @ n # post \<and> has_shutdown ?cs n \<and>
         all_shut_down ?cs ctx pre (env w) \<and>
         shutdown_of ?cs ctx n (run_shutdowns ?cs ctx pre (env w)) = (Some e, env w1) \<and>
         Some err = Some (shutting_down n e) \<and>
         calls w1 = calls w @ map (\<lambda>m. ShutdownCall m ctx None) (filter (has_shutdown ?cs) pre)
                      @ [ShutdownCall n ctx (Some e)]"
      by - (rule exI[of _ pre], rule exI[of _ n], rule exI[of _ post], rule exI[of _ e])
    with sd show ?thesis
      by - (rule exI[of _ "Some err"], rule exI[of _ w1], rule conjI, assumption, rule disjI1)
  next
    case None
    obtain res w' where hooks: "runHooks ctx 0 (shutdownHooks r) w1 = (res, w')"
      by (cases "runHooks ctx 0 (shutdownHooks r) w1")
    with walk None have sd: "Shutdown r ctx w = (res, w')" by (simp add: Shutdown_names)
    from runHooks_result_0[OF hooks] obtain j where j: "j \<le> length (shutdownHooks r)"
      and c: "calls w' = calls w1 @ map (\<lambda>i. HookCall i ctx None) [0..<j]
                  @ (case res of None \<Rightarrow> [] | Some e \<Rightarrow> [HookCall j ctx (Some e)])"
      by (elim exE conjE) (rule that)
    from c w1[unfolded None option.case] have
      cl: "calls w' = calls w
            @ map (\<lambda>m. ShutdownCall m ctx None) (filter (has_shutdown ?cs) (rev (initOrder r)))
            @ map (\<lambda>i. HookCall i ctx None) [0..<j]
            @ (case res of None \<Rightarrow> [] | Some e \<Rightarrow> [HookCall j ctx (Some e)])" by simp
    from t1[unfolded None option.case] have
      a: "all_shut_down ?cs ctx (rev (initOrder r)) (env w)"
      and e1: "env w1 = run_shutdowns ?cs ctx (rev (initOrder r)) (env w)" by simp_all
    from loop None hooks e1 j cl have "\<exists>w1 j.
         shutdownLoop r ctx (length (initOrder r)) w = (None, w1) \<and>
         env w1 = run_shutdowns ?cs ctx (rev (initOrder r)) (env w) \<and>
         (res, w') = runHooks ctx 0 (shutdownHooks r) w1 \<and>
         j \<le> length (shutdownHooks r) \<and>
         calls w' = calls w
            @ map (\<lambda>m. ShutdownCall m ctx None) (filter (has_shutdown ?cs) (rev (initOrder r)))
            @ map (\<lambda>i. HookCall i ctx None) [0..<j]
            @ (case res of None \<Rightarrow> [] | Some e \<Rightarrow> [HookCall j ctx (Some e)])"
      by - (rule exI[of _ w1], rule exI[of _ j], simp)
    with sd a show ?thesis
      by - (rule exI[of _ res], rule exI[of _ w'], rule conjI, assumption, rule disjI2, rule conjI)
  qed
qed

theorem Shutdown_walks_initOrder_in_reverse_witness:
  "rev (initOrder registry_teardown) = [''D'', ''C'', ''B'', ''A''] \<and>
   \<not> has_shutdown (components registry_teardown) ''D'' \<and>
   all_shut_down (components registry_teardown) (WithTimeout Background 30) [''D'', ''C''] (env world\<^sub>0) \<and>
   shutdown_of (components registry_teardown) (WithTimeout Background 30) ''B''
     (run_shutdowns (components registry_teardown) (WithTimeout Background 30) [''D'', ''C''] (env world\<^sub>0))
     = (Some ''busy'', 1) \<and>
   (\<exists>res w'. Shutdown registry_teardown (WithTimeout Background 30) world\<^sub>0 = (res, w') \<and>
      res = Some ''shutting down B: busy'' \<and> env w' = 1 \<and>
      calls w' = [ShutdownCall ''C'' (WithTimeout Background 30) None,
                  ShutdownCall ''B'' (WithTimeout Background 30) (Some ''busy'')])"
proof -
  have o: "rev (initOrder registry_teardown) = [''D'', ''C'', ''B'', ''A'']"
    by (simp add: registry_teardown_def)
  have d: "\<not> has_shutdown (components registry_teardown) ''D''"
    by (simp add: has_shutdown_def components_teardown make_component_def)
  have a: "all_shut_down (components registry_teardown) (WithTimeout Background 30) [''D'', ''C'']
             (env world\<^sub>0)"
    by (simp add: components_teardown shutdown_of_def make_component_def closing_counted_def
          world\<^sub>0_def)
  have b: "shutdown_of (components registry_teardown) (WithTimeout Background 30) ''B''
     (run_shutdowns (components registry_teardown) (WithTimeout Background 30) [''D'', ''C''] (env world\<^sub>0))
     = (Some ''busy'', 1)"
    by (simp add: components_teardown shutdown_of_def make_component_def closing_counted_def
          close_fails_after_def world\<^sub>0_def)
  from Shutdown_walks_initOrder_in_reverse[of registry_teardown "WithTimeout Background 30" world\<^sub>0]
  obtain res w' where sd: "Shutdown registry_teardown (WithTimeout Background 30) world\<^sub>0 = (res, w')"
    by (elim exE conjE) (rule that)
  with Shutdown_teardown[of "WithTimeout Background 30"] have
    "res = Some ''shutting down B: busy''" "env w' = 1"
    "calls w' = [ShutdownCall ''C'' (WithTimeout Background 30) None,
                  ShutdownCall ''B'' (WithTimeout Background 30) (Some ''busy'')]"
    by auto
  with sd o d a b show ?thesis by simp
qed

text \<open>
  Claim C7. \<^verbatim>\<open>RegisterShutdownHook\<close> appends to the slice of hooks. In
  \<^verbatim>\<open>Shutdown\<close>, when the reverse walk over the components returns an error, that error
  is returned with the world as the walk left it: no hook runs. When the walk completes,
  the hooks are called from the first registered on, each on the environment the previous
  one left; the first hook that returns an error ends the loop with that error, and the
  hooks after it are not called.
\<close>

theorem Shutdown_hooks_after_walk:
  "shutdownHooks (RegisterShutdownHook hook r) = shutdownHooks r @ [hook] \<and>
   (\<exists>res1 w1. shutdownLoop r ctx (length (initOrder r)) w = (res1, w1) \<and>
      (case res1 of
         Some err \<Rightarrow> Shutdown r ctx w = (Some err, w1)
       | None \<Rightarrow>
           \<exists>res w' j.
             Shutdown r ctx w = (res, w') \<and> j \<le> length (shutdownHooks r) \<and>
             calls w' = calls w1 @ map (\<lambda>i. HookCall i ctx None) [0..<j]
                          @ (case res of None \<Rightarrow> [] | Some e \<Rightarrow> [HookCall j ctx (Some e)]) \<and>
             (case res of
                None \<Rightarrow> j = length (shutdownHooks r)
              | Some e \<Rightarrow> j < length (shutdownHooks r) \<and>
                  fst ((shutdownHooks r ! j) ctx
                         (fold (\<lambda>h e. snd (h ctx e)) (take j (shutdownHooks r)) (env w1))) = Some e)))"
proof -
  obtain res1 w1 where walk: "shutdownLoop r ctx (length (initOrder r)) w = (res1, w1)"
    by (cases "shutdownLoop r ctx (length (initOrder r)) w")
  have "case res1 of
         Some err \<Rightarrow> Shutdown r ctx w = (Some err, w1)
       | None \<Rightarrow>
           \<exists>res w' j.
             Shutdown r ctx w = (res, w') \<and> j \<le> length (shutdownHooks r) \<and>
             calls w' = calls w1 @ map (\<lambda>i. HookCall i ctx None) [0..<j]
                          @ (case res of None \<Rightarrow> [] | Some e \<Rightarrow> [HookCall j ctx (Some e)]) \<and>
             (case res of
                None \<Rightarrow> j = length (shutdownHooks r)
              | Some e \<Rightarrow> j < length (shutdownHooks r) \<and>
                  fst ((shutdownHooks r ! j) ctx
                         (fold (\<lambda>h e. snd (h ctx e)) (take j (shutdownHooks r)) (env w1))) = Some e)"
  proof (cases res1)
    case (Some err)
    with walk show ?thesis by (simp add: Shutdown_def)
  next
    case None
    obtain res w' where hooks: "runHooks ctx 0 (shutdownHooks r) w1 = (res, w')"
      by (cases "runHooks ctx 0 (shutdownHooks r) w1")
    with walk None have sd: "Shutdown r ctx w = (res, w')" by (simp add: Shutdown_def)
    from runHooks_result_0[OF hooks] obtain j where
      "j \<le> length (shutdownHooks r) \<and>
       calls w' = calls w1 @ map (\<lambda>i. HookCall i ctx None) [0..<j]
                          @ (case res of None \<Rightarrow> [] | Some e \<Rightarrow> [HookCall j ctx (Some e)]) \<and>
       (case res of
          None \<Rightarrow> j = length (shutdownHooks r)
        | Some e \<Rightarrow> j < length (shutdownHooks r) \<and>
            fst ((shutdownHooks r ! j) ctx
                   (fold (\<lambda>h e. snd (h ctx e)) (take j (shutdownHooks r)) (env w1))) = Some e)"
      by (elim exE)
    with sd have "\<exists>res w' j.
             Shutdown r ctx w = (res, w') \<and> j \<le> length (shutdownHooks r) \<and>
             calls w' = calls w1 @ map (\<lambda>i. HookCall i ctx None) [0..<j]
                          @ (case res of None \<Rightarrow> [] | Some e \<Rightarrow> [HookCall j ctx (Some e)]) \<and>
             (case res of
                None \<Rightarrow> j = length (shutdownHooks r)
              | Some e \<Rightarrow> j < length (shutdownHooks r) \<and>
                  fst ((shutdownHooks r ! j) ctx
                         (fold (\<lambda>h e. snd (h ctx e)) (take j (shutdownHooks r)) (env w1))) = Some e)"
      by - (rule exI[of _ res], rule exI[of _ w'], rule exI[of _ j], rule conjI)
    with None show ?thesis by simp
  qed
  with walk have "\<exists>res1 w1. shutdownLoop r ctx (length (initOrder r)) w = (res1, w1) \<and>
      (case res1 of
         Some err \<Rightarrow> Shutdown r ctx w = (Some err, w1)
       | None \<Rightarrow>
           \<exists>res w' j.
             Shutdown r ctx w = (res, w') \<and> j \<le> length (shutdownHooks r) \<and>
             calls w' = calls w1 @ map (\<lambda>i. HookCall i ctx None) [0..<j]
                          @ (case res of None \<Rightarrow> [] | Some e \<Rightarrow> [HookCall j ctx (Some e)]) \<and>
             (case res of
                None \<Rightarrow> j = length (shutdownHooks r)
              | Some e \<Rightarrow> j < length (shutdownHooks r) \<and>
                  fst ((shutdownHooks r ! j) ctx
                         (fold (\<lambda>h e. snd (h ctx e)) (take j (shutdownHooks r)) (env w1))) = Some e))"
    by - (rule exI[of _ res1], rule exI[of _ w1], rule conjI)
  then show ?thesis by (simp add: RegisterShutdownHook_def)
qed

theorem Shutdown_hooks_after_walk_witness:
  "length (shutdownHooks registry_hooks) = 3 \<and>
   Shutdown registry_hooks Background world\<^sub>0 =
     (Some ''hook failed'',
      \<lparr>env = 0, calls = [HookCall 0 Background None, HookCall 1 Background (Some ''hook failed'')]\<rparr>) \<and>
   length (shutdownHooks registry_up) = 1 \<and>
   (\<exists>w1. shutdownLoop registry_up Background (length (initOrder registry_up)) world\<^sub>0 =
            (Some ''shutting down B: busy'', w1) \<and>
         Shutdown registry_up Background world\<^sub>0 = (Some ''shutting down B: busy'', w1))"
proof -
  from Shutdown_hooks_after_walk[of closing registry_up Background world\<^sub>0]
  obtain res1 w1 where
    walk: "shutdownLoop registry_up Background (length (initOrder registry_up)) world\<^sub>0 = (res1, w1)"
    and rest: "case res1 of
         Some err \<Rightarrow> Shutdown registry_up Background world\<^sub>0 = (Some err, w1)
       | None \<Rightarrow>
           \<exists>res w' j.
             Shutdown registry_up Background world\<^sub>0 = (res, w') \<and>
             j \<le> length (shutdownHooks registry_up) \<and>
             calls w' = calls w1 @ map (\<lambda>i. HookCall i Background None) [0..<j]
                          @ (case res of None \<Rightarrow> [] | Some e \<Rightarrow> [HookCall j Background (Some e)]) \<and>
             (case res of
                None \<Rightarrow> j = length (shutdownHooks registry_up)
              | Some e \<Rightarrow> j < length (shutdownHooks registry_up) \<and>
                  fst ((shutdownHooks registry_up ! j) Background
                         (fold (\<lambda>h e. snd (h Background e)) (take j (shutdownHooks registry_up)) (env w1)))
                    = Some e)"
    by (elim exE conjE) (rule that)
  have "shutdownLoop registry_up Background (length (initOrder registry_up)) world\<^sub>0 =
     (Some ''shutting down B: busy'',
      \<lparr>env = 0, calls = [ShutdownCall ''C'' Background None, ShutdownCall ''B'' Background (Some ''busy'')]\<rparr>)"
    by (simp add: registry_up_def RegisterShutdownHook_def Register_def registry_def
        make_component_def world\<^sub>0_def closing_def failing_close_def shutting_down_def
        eval_nat_numeral Let_def)
  with walk have r1: "res1 = Some ''shutting down B: busy''" by simp
  with walk rest have
    "\<exists>w1. shutdownLoop registry_up Background (length (initOrder registry_up)) world\<^sub>0 =
            (Some ''shutting down B: busy'', w1) \<and>
         Shutdown registry_up Background world\<^sub>0 = (Some ''shutting down B: busy'', w1)"
    by - (rule exI[of _ w1], simp)
  moreover have "length (shutdownHooks registry_hooks) = 3" "length (shutdownHooks registry_up) = 1"
    by (simp_all add: registry_hooks_def registry_up_def RegisterShutdownHook_def Register_def
          registry_def make_component_def)
  ultimately show ?thesis using Shutdown_hooks[of Background] by simp
qed

section \<open>Claims about error propagation\<close>

text \<open>
  Claim C8 says that every error that \<^verbatim>\<open>Initialize\<close> or \<^verbatim>\<open>Shutdown\<close> returns carries
  the prefix of its phase and the name of a component, ordering errors and hook errors
  included. \<^verbatim>\<open>Initialize\<close> returns the error of \<^verbatim>\<open>topologicalSort\<close> as it is, and
  \<^verbatim>\<open>Shutdown\<close> returns the error of a hook as it is.
\<close>

theorem unwrapped_errors_counterexample:
  "Shutdown registry_hooks Background world\<^sub>0 =
     (Some ''hook failed'',
      \<lparr>env = 0, calls = [HookCall 0 Background None, HookCall 1 Background (Some ''hook failed'')]\<rparr>) \<and>
   \<not> prefix ''shutting down '' ''hook failed'' \<and>
   Initialize (Suc 0) registry_cycle world\<^sub>0 =
     Some (Some ''circular dependency detected involving A'', registry_cycle, world\<^sub>0) \<and>
   \<not> prefix ''initializing '' ''circular dependency detected involving A''"
  using Shutdown_hooks[of Background] topologicalSort_cycle
  by (simp add: Initialize_cycle circular_def)

text \<open>
  Claim C8, as the code has it. An error that \<^verbatim>\<open>Initialize\<close> returns is either the
  error of \<^verbatim>\<open>topologicalSort\<close>, unwrapped, with nothing called and nothing changed; or
  "initializing n: e", where \<open>n\<close> is the name of the order at which the walk stopped
  and \<open>e\<close> the error of \<^verbatim>\<open>initOne\<close> for it. An error that \<^verbatim>\<open>Shutdown\<close> returns is
  either "shutting down n: e" for the component \<open>n\<close> whose \<^verbatim>\<open>Shutdown\<close> returned
  \<open>e\<close>, or the error of a hook, unwrapped. In each case the failing call is the last
  call made: nothing is retried and nothing is called after it.
\<close>

theorem errors_name_phase_and_component:
  "(Initialize (Suc fuel) r w = Some (Some err, r', w') \<longrightarrow>
      (topologicalSort r = Inl err \<and> (\<exists>m. err = circular m) \<and> r' = r \<and> w' = w) \<or>
      (\<exists>ord pre n post e.
          topologicalSort r = Inr ord \<and> ord = pre @ n # post \<and> err = initializing n e \<and>
          calls w' = calls w @ map (\<lambda>m. InitCall m None) [m \<leftarrow> pre. m \<notin> initialized r]
                       @ failed_init (components r) n e)) \<and>
   (Shutdown r ctx w = (Some err\<^sub>2, w\<^sub>2) \<longrightarrow>
      (\<exists>pre n post e.
          rev (initOrder r) = pre @ n # post \<and> err\<^sub>2 = shutting_down n e \<and>
          calls w\<^sub>2 = calls w
             @ map (\<lambda>m. ShutdownCall m ctx None) (filter (has_shutdown (components r)) pre)
             @ [ShutdownCall n ctx (Some e)]) \<or>
      (\<exists>j. j < length (shutdownHooks r) \<and>
          calls w\<^sub>2 = calls w
             @ map (\<lambda>m. ShutdownCall m ctx None) (filter (has_shutdown (components r)) (rev (initOrder r)))
             @ map (\<lambda>i. HookCall i ctx None) [0..<j] @ [HookCall j ctx (Some err\<^sub>2)]))"
proof (intro conjI impI)
  assume ini: "Initialize (Suc fuel) r w = Some (Some err, r', w')"
  show "(topologicalSort r = Inl err \<and> (\<exists>m. err = circular m) \<and> r' = r \<and> w' = w) \<or>
      (\<exists>ord pre n post e.
          topologicalSort r = Inr ord \<and> ord = pre @ n # post \<and> err = initializing n e \<and>
          calls w' = calls w @ map (\<lambda>m. InitCall m None) [m \<leftarrow> pre. m \<notin> initialized r]
                       @ failed_init (components r) n e)"
  proof (cases "topologicalSort r")
    case (Inl e)
    with ini have "err = e" "r' = r" "w' = w" by (simp_all add: Initialize_cycle)
    with Inl topologicalSort_Inl[OF Inl] show ?thesis by auto
  next
    case (Inr ord)
    let ?r1 = "r\<lparr>initOrder := ord\<rparr>"
    from Initialize_walk[OF Inr, of fuel w] ini have wk: "walk ord ?r1 w = (Some err, r', w')"
      by simp
    from walk_failure[OF wk topologicalSort_Inr(1)[OF Inr]] obtain pre n post e where
      "ord = pre @ n # post" "err = initializing n e"
      "calls w' = calls w @ map (\<lambda>m. InitCall m None) [m \<leftarrow> pre. m \<notin> initialized ?r1]
                        @ failed_init (components ?r1) n e"
      by (elim exE conjE) (rule that)
    with Inr have "\<exists>ord pre n post e.
          topologicalSort r = Inr ord \<and> ord = pre @ n # post \<and> err = initializing n e \<and>
          calls w' = calls w @ map (\<lambda>m. InitCall m None) [m \<leftarrow> pre. m \<notin> initialized r]
                       @ failed_init (components r) n e"
      by - (rule exI[of _ ord], rule exI[of _ pre], rule exI[of _ n], rule exI[of _ post],
            rule exI[of _ e], simp)
    then show ?thesis by (rule disjI2)
  qed
next
  let ?cs = "components r"
  assume sd: "Shutdown r ctx w = (Some err\<^sub>2, w\<^sub>2)"
  obtain res1 w1 where walk: "shutdownNames ?cs ctx (rev (initOrder r)) w = (res1, w1)"
    by (cases "shutdownNames ?cs ctx (rev (initOrder r)) w")
  note w1 = shutdownNames_result[OF walk]
  show "(\<exists>pre n post e.
          rev (initOrder r) = pre @ n # post \<and> err\<^sub>2 = shutting_down n e \<and>
          calls w\<^sub>2 = calls w
             @ map (\<lambda>m. ShutdownCall m ctx None) (filter (has_shutdown ?cs) pre)
             @ [ShutdownCall n ctx (Some e)]) \<or>
      (\<exists>j. j < length (shutdownHooks r) \<and>
          calls w\<^sub>2 = calls w
             @ map (\<lambda>m. ShutdownCall m ctx None) (filter (has_shutdown ?cs) (rev (initOrder r)))
             @ map (\<lambda>i. HookCall i ctx None) [0..<j] @ [HookCall j ctx (Some err\<^sub>2)])"
  proof (cases res1)
    case (Some e1)
    with walk sd have eq: "e1 = err\<^sub>2" "w1 = w\<^sub>2" by (simp_all add: Shutdown_names)
    from w1[unfolded Some option.case] obtain pre n post e where
      "rev (initOrder r) = pre @ n # post" "e1 = shutting_down n e"
      "calls w1 = calls w @ map (\<lambda>m. ShutdownCall m ctx None) (filter (has_shutdown ?cs) pre)
                      @ [ShutdownCall n ctx (Some e)]"
      by (elim exE conjE) (rule that)
    with eq have "\<exists>pre n post e.
          rev (initOrder r) = pre @ n # post \<and> err\<^sub>2 = shutting_down n e \<and>
          calls w\<^sub>2 = calls w
             @ map (\<lambda>m. ShutdownCall m ctx None) (filter (has_shutdown ?cs) pre)
             @ [ShutdownCall n ctx (Some e)]"
      by - (rule exI[of _ pre], rule exI[of _ n], rule exI[of _ post], rule exI[of _ e], simp)
    then show ?thesis by (rule disjI1)
  next
    case None
    with walk sd have hooks: "runHooks ctx 0 (shutdownHooks r) w1 = (Some err\<^sub>2, w\<^sub>2)"
      by (simp add: Shutdown_names)
    from runHooks_result_0[OF hooks] obtain j where
      "j < length (shutdownHooks r)"
      "calls w\<^sub>2 = calls w1 @ map (\<lambda>i. HookCall i ctx None) [0..<j] @ [HookCall j ctx (Some err\<^sub>2)]"
      by (elim exE conjE) simp
    with w1[unfolded None option.case] have "\<exists>j. j < length (shutdownHooks r) \<and>
          calls w\<^sub>2 = calls w
             @ map (\<lambda>m. ShutdownCall m ctx None) (filter (has_shutdown ?cs) (rev (initOrder r)))
             @ map (\<lambda>i. HookCall i ctx None) [0..<j] @ [HookCall j ctx (Some err\<^sub>2)]"
      by - (rule exI[of _ j], simp)
    then show ?thesis by (rule disjI2)
  qed
qed

theorem errors_name_phase_and_component_witness:
  "(\<exists>r' w'. Initialize (Suc 0) registry_B_fails world\<^sub>0 = Some (Some ''initializing B: boom'', r', w')) \<and>
   (\<exists>ord pre n post e. topologicalSort registry_B_fails = Inr ord \<and> ord = pre @ n # post \<and>
        ''initializing B: boom'' = initializing n e) \<and>
   (\<exists>w'. Shutdown registry_up Background world\<^sub>0 = (Some ''shutting down B: busy'', w')) \<and>
   (\<exists>pre n post e. rev (initOrder registry_up) = pre @ n # post \<and>
        ''shutting down B: busy'' = shutting_down n e)"
proof -
  let ?w1 = "\<lparr>env = 1, calls = [InitCall ''A'' None, InitCall ''B'' (Some ''boom'')]\<rparr> :: nat World"
  let ?r1 = "registry_B_fails\<lparr>initialized := {''A''}, initOrder := [''A'', ''B'', ''C'']\<rparr>"
  let ?w2 = "\<lparr>env = 0, calls = [ShutdownCall ''C'' Background None,
                                  ShutdownCall ''B'' Background (Some ''busy'')]\<rparr> :: nat World"
  note i = errors_name_phase_and_component
    [of 0 registry_B_fails world\<^sub>0 "''initializing B: boom''" ?r1 ?w1,
     THEN conjunct1, rule_format, OF Initialize_B_fails]
  note s = errors_name_phase_and_component
    [of _ registry_up world\<^sub>0 _ _ _ Background "''shutting down B: busy''" ?w2,
     THEN conjunct2, rule_format, OF Shutdown_up]
  from i topologicalSort_B_fails have
    1: "\<exists>ord pre n post e. topologicalSort registry_B_fails = Inr ord \<and> ord = pre @ n # post \<and>
        ''initializing B: boom'' = initializing n e"
    by auto
  from s have
    2: "\<exists>pre n post e. rev (initOrder registry_up) = pre @ n # post \<and>
        ''shutting down B: busy'' = shutting_down n e"
  proof
    assume "\<exists>pre n post e.
          rev (initOrder registry_up) = pre @ n # post \<and> ''shutting down B: busy'' = shutting_down n e \<and>
          calls ?w2 = calls world\<^sub>0
             @ map (\<lambda>m. ShutdownCall m Background None) (filter (has_shutdown (components registry_up)) pre)
             @ [ShutdownCall n Background (Some e)]"
    then show ?thesis by blast
  next
    assume "\<exists>j. j < length (shutdownHooks registry_up) \<and>
          calls ?w2 = calls world\<^sub>0
             @ map (\<lambda>m. ShutdownCall m Background None)
                 (filter (has_shutdown (components registry_up)) (rev (initOrder registry_up)))
             @ map (\<lambda>i. HookCall i Background None) [0..<j]
             @ [HookCall j Background (Some ''shutting down B: busy'')]"
    then obtain j where "calls ?w2 = (calls world\<^sub>0
             @ map (\<lambda>m. ShutdownCall m Background None)
                 (filter (has_shutdown (components registry_up)) (rev (initOrder registry_up)))
             @ map (\<lambda>i. HookCall i Background None) [0..<j])
             @ [HookCall j Background (Some ''shutting down B: busy'')]" by auto
    then have "last (calls ?w2) = HookCall j Background (Some ''shutting down B: busy'')"
      by (simp only: last_snoc)
    then show ?thesis by simp
  qed
  from Initialize_B_fails Shutdown_up[of Background] 1 2 show ?thesis by simp
qed

section \<open>Claims about CheckHealth\<close>

text \<open>
  Claim C9. For every order in which the map of checkers is ranged over, and as long as
  no health check moves the clock backwards, \<^verbatim>\<open>CheckHealth\<close> returns a map whose keys
  are exactly the registered names; the result under a name carries the status and the
  error that its checker returned when it was polled, and the clock reading taken right
  after, which is not before the reading at the start of the call. The registry of
  components is not an input of \<^verbatim>\<open>CheckHealth\<close>.
\<close>

theorem CheckHealth_one_result_per_checker:
  assumes "distinct keys" and "set keys = fmdom' (checkers hr)" and "clock_advances now hr ctx"
  shows "fmdom' (fst (CheckHealth now hr keys ctx e)) = fmdom' (checkers hr) \<and>
         (\<forall>name c. fmlookup (checkers hr) name = Some c \<longrightarrow>
            (\<exists>e1 res. fmlookup (fst (CheckHealth now hr keys ctx e)) name = Some res \<and>
               Status res = fst (fst (c ctx e1)) \<and> Error res = snd (fst (c ctx e1)) \<and>
               Time res = now (snd (c ctx e1)) \<and> now e \<le> Time res))"
proof (intro conjI allI impI)
  show "fmdom' (fst (CheckHealth now hr keys ctx e)) = fmdom' (checkers hr)"
    using assms(2) by (simp add: CheckHealth_def rangeCheckers_dom)
next
  fix name c assume c: "fmlookup (checkers hr) name = Some c"
  then have "name \<in> set keys" using assms(2) by (simp add: fmdom'I)
  from rangeCheckers_polled[OF assms(3) assms(1) this c, of e fmempty] obtain e1 res where
    le: "now e \<le> now e1"
    and r: "fmlookup (fst (rangeCheckers now hr ctx keys fmempty e)) name = Some res"
      "Status res = fst (fst (c ctx e1))" "Error res = snd (fst (c ctx e1))"
      "Time res = now (snd (c ctx e1))"
    by (elim exE conjE) (rule that)
  from assms(3) c have "now e1 \<le> now (snd (c ctx e1))"
    by (auto simp: clock_advances_def fmpred_iff)
  with le r(4) have "now e \<le> Time res" by simp
  with r show "\<exists>e1 res. fmlookup (fst (CheckHealth now hr keys ctx e)) name = Some res \<and>
               Status res = fst (fst (c ctx e1)) \<and> Error res = snd (fst (c ctx e1)) \<and>
               Time res = now (snd (c ctx e1)) \<and> now e \<le> Time res"
    by - (rule exI[of _ e1], rule exI[of _ res], simp add: CheckHealth_def)
qed

theorem CheckHealth_one_result_per_checker_witness:
  "distinct [''network_manager'', ''mysql''] \<and>
   set [''network_manager'', ''mysql''] = fmdom' (checkers health_example) \<and>
   clock_advances (\<lambda>e. e) health_example Background \<and>
   fmdom' (fst (CheckHealth (\<lambda>e. e) health_example [''network_manager'', ''mysql''] Background 10)) =
     {''mysql'', ''network_manager''} \<and>
   fmlookup (fst (CheckHealth (\<lambda>e. e) health_example [''network_manager'', ''mysql''] Background 10))
       ''mysql'' = Some \<lparr>Status = HealthHealthy, Error = None, Time = 13\<rparr> \<and>
   fmlookup (fst (CheckHealth (\<lambda>e. e) health_example [''network_manager'', ''mysql''] Background 10))
       ''network_manager'' = Some \<lparr>Status = HealthUnhealthy, Error = Some ''unreachable'', Time = 11\<rparr>"
proof -
  have c: "checkers health_example =
      fmupd ''network_manager'' (\<lambda>ctx e. ((HealthUnhealthy, Some ''unreachable''), e + 1))
        (fmupd ''mysql'' (\<lambda>ctx e. ((HealthHealthy, None), e + 2)) fmempty)"
    by (simp add: health_example_def RegisterHealthCheck_def healthRegistry_def)
  have 1: "distinct [''network_manager'', ''mysql'']" by simp
  have 2: "set [''network_manager'', ''mysql''] = fmdom' (checkers health_example)"
    by (simp add: c)
  have 3: "clock_advances (\<lambda>e. e) health_example Background"
    by (simp add: clock_advances_def c fmpred_iff)
  from CheckHealth_one_result_per_checker[OF 1 2 3, of 10]
  have dom: "fmdom' (fst (CheckHealth (\<lambda>e. e) health_example [''network_manager'', ''mysql''] Background 10))
      = fmdom' (checkers health_example)" by (rule conjunct1)
  have "fmlookup (fst (CheckHealth (\<lambda>e. e) health_example [''network_manager'', ''mysql''] Background 10))
       ''mysql'' = Some \<lparr>Status = HealthHealthy, Error = None, Time = 13\<rparr>"
    "fmlookup (fst (CheckHealth (\<lambda>e. e) health_example [''network_manager'', ''mysql''] Background 10))
       ''network_manager'' = Some \<lparr>Status = HealthUnhealthy, Error = Some ''unreachable'', Time = 11\<rparr>"
    by (simp_all add: CheckHealth_def c)
  with 1 2 3 dom show ?thesis by (simp add: c insert_commute)
qed

section \<open>Register drops what is not an Initializer\<close>

text \<open>
  Claim C10. A value that fails the \<^verbatim>\<open>component.(Initializer)\<close> assertion is not
  stored: \<^verbatim>\<open>Register\<close> returns and the registry (components, initialized set,
  initOrder and shutdown hooks) is exactly what it was.
\<close>

theorem Register_not_Initializer:
  "asInitializer c = None \<Longrightarrow> Register c r = r"
  by (simp add: Register_def)

theorem Register_not_Initializer_witness:
  "asInitializer \<lparr>asInitializer = None, asShutdowner = Some (\<lambda>ctx (w::nat). (None, w))\<rparr> = None
   \<and> Register \<lparr>asInitializer = None, asShutdowner = Some (\<lambda>ctx (w::nat). (None, w))\<rparr> registry
       = registry"
  using Register_not_Initializer
    [of "\<lparr>asInitializer = None, asShutdowner = Some (\<lambda>ctx (w::nat). (None, w))\<rparr>" registry]
  by simp

end
